theory Spec2Isabelle
  imports Complex_Main "HOL-Library.Multiset"
begin

chapter \<open>The contextual-retrieval core of wavie-claude-bot\<close>

text \<open>
  Two components are embedded: the conversation store of the package \<open>conversation\<close>
  (\<open>Store\<close>, \<open>GetOrCreate\<close>, \<open>AddMessage\<close>, \<open>GetMessages\<close>, \<open>cleanup\<close>) and the document
  index of the Claude proxy (\<open>DocumentService\<close> with \<open>LoadFromZip\<close>, \<open>chunkDocument\<close>,
  \<open>splitIntoChunks\<close>, \<open>extractKeywords\<close>, \<open>buildKeywordIndex\<close>, \<open>SearchRelevantChunks\<close>).

  Conventions of the embedding.
  \<^item> A Go \<open>string\<close> is a byte sequence, here a \<open>char list\<close>; \<open>len\<close> is \<open>length\<close>.
    The library functions that look at characters (\<open>strings.ToLower\<close>, \<open>strings.Fields\<close>,
    \<open>strings.TrimSpace\<close>, the two regular expressions) are embedded on the bytes of the
    UTF-8 encoding.
  \<^item> A Go \<open>int\<close> that can be negative (\<open>chunkSize\<close>, \<open>maxChunks\<close>, \<open>maxMessages\<close>) is an
    \<open>int\<close>; an index produced by \<open>range\<close> is a \<open>nat\<close>.
  \<^item> \<open>time.Time\<close> and \<open>time.Duration\<close> are integers (nanoseconds); every operation of the
    store receives the reading of the clock as its argument \<open>now\<close>, and
    \<open>time.Since(t)\<close> is \<open>now - t\<close> as far as a \<open>Duration\<close> can hold it (see \<open>olderThan\<close>).
  \<^item> \<open>float64\<close> scores are real numbers and \<open>math.Log\<close> is \<open>ln\<close>: the rounding of the
    machine arithmetic is left out, and what is proved of the scores is proved of their
    exact values.
  \<^item> A run-time panic is the left summand of the result.
  \<^item> The operations are embedded as sequential state transformers: what the locks
    protect against is outside the embedding.
\<close>

section \<open>Conversation store\<close>

record Message =
  msg_Role :: string
  msg_Content :: string
  msg_Timestamp :: int

record ConversationContext =
  ThreadID :: string
  Messages :: "Message list"
  LastAccessed :: int

record Store =
  conversations :: "string \<rightharpoonup> ConversationContext"
  maxMessages :: int
  maxAge :: int

datatype panic = SliceBoundsOutOfRange

text \<open>
  The staleness test \<open>time.Since(t) > age\<close> of the three operations. A \<open>Duration\<close> is an
  \<open>int64\<close> of nanoseconds and \<open>time.Since\<close> saturates: a difference beyond the largest
  \<open>Duration\<close> is returned as the largest \<open>Duration\<close>, so with \<open>age\<close> at that maximum nothing is
  ever older than \<open>age\<close>. (A difference below the smallest \<open>Duration\<close> is returned as the
  smallest one; like the exact difference it is above no \<open>int64\<close> value of \<open>age\<close>, so the
  test comes out the same.)
\<close>

definition maxDuration :: int where
  "maxDuration = 9223372036854775807"

definition olderThan :: "int \<Rightarrow> int \<Rightarrow> int \<Rightarrow> bool" where
  "olderThan age now t = (min (now - t) maxDuration > age)"

text \<open>
  \<open>GetOrCreate\<close>: the entry of the thread is fetched, or created with no messages; an
  entry older than \<open>maxAge\<close> loses its messages; \<open>LastAccessed\<close> becomes \<open>now\<close>. The map
  holds pointers, so the changes made through the returned pointer are changes of the
  stored entry: the function returns the updated store with the entry.
\<close>

definition GetOrCreate :: "Store \<Rightarrow> string \<Rightarrow> int \<Rightarrow> Store \<times> ConversationContext" where
  "GetOrCreate s threadID now =
    (let c0 = (case conversations s threadID of
                 None \<Rightarrow> \<lparr>ThreadID = threadID, Messages = [], LastAccessed = now\<rparr>
               | Some c \<Rightarrow> c);
         c1 = (if olderThan (maxAge s) now (LastAccessed c0) then c0\<lparr>Messages := []\<rparr> else c0);
         c2 = c1\<lparr>LastAccessed := now\<rparr>
     in (s\<lparr>conversations := (conversations s)(threadID \<mapsto> c2)\<rparr>, c2))"

text \<open>
  \<open>AddMessage\<close>: the message is appended to the entry that \<open>GetOrCreate\<close> returns; when
  the sequence is longer than \<open>maxMessages\<close> it is resliced from
  \<open>len(Messages) - maxMessages\<close>. With a negative \<open>maxMessages\<close> that lower bound is
  beyond the length and the slice expression panics.
\<close>

definition AddMessage :: "Store \<Rightarrow> string \<Rightarrow> string \<Rightarrow> string \<Rightarrow> int \<Rightarrow> panic + Store" where
  "AddMessage s threadID role content now =
    (let (s1, ctx) = GetOrCreate s threadID now;
         msgs = Messages ctx @ [\<lparr>msg_Role = role, msg_Content = content, msg_Timestamp = now\<rparr>]
     in if int (length msgs) > maxMessages s1
        then (if int (length msgs) - maxMessages s1 > int (length msgs)
              then Inl SliceBoundsOutOfRange
              else Inr (s1\<lparr>conversations := (conversations s1)(threadID \<mapsto>
                          ctx\<lparr>Messages := drop (nat (int (length msgs) - maxMessages s1)) msgs\<rparr>)\<rparr>))
        else Inr (s1\<lparr>conversations := (conversations s1)(threadID \<mapsto> ctx\<lparr>Messages := msgs\<rparr>)\<rparr>))"

text \<open>
  \<open>GetMessages\<close> runs under the read lock and assigns nothing; the store it leaves
  behind is returned with the messages, so that this is a statement about the function.
\<close>

definition GetMessages :: "Store \<Rightarrow> string \<Rightarrow> int \<Rightarrow> Store \<times> Message list" where
  "GetMessages s threadID now =
    (case conversations s threadID of
       None \<Rightarrow> (s, [])
     | Some ctx \<Rightarrow> if olderThan (maxAge s) now (LastAccessed ctx) then (s, [])
                  else (s, Messages ctx))"

text \<open>\<open>cleanup\<close> deletes every entry older than \<open>maxAge\<close>.\<close>

definition cleanup :: "Store \<Rightarrow> int \<Rightarrow> Store" where
  "cleanup s now =
    s\<lparr>conversations := (\<lambda>threadID.
        case conversations s threadID of
          None \<Rightarrow> None
        | Some ctx \<Rightarrow> if olderThan (maxAge s) now (LastAccessed ctx) then None else Some ctx)\<rparr>"

text \<open>
  A run of appends to one thread, each with its role, content and clock reading; the
  first panic ends the run.
\<close>

fun AddMessages :: "Store \<Rightarrow> string \<Rightarrow> (string \<times> string \<times> int) list \<Rightarrow> panic + Store" where
  "AddMessages s threadID [] = Inr s"
| "AddMessages s threadID ((role, content, now) # rest) =
     (case AddMessage s threadID role content now of
        Inl e \<Rightarrow> Inl e
      | Inr s' \<Rightarrow> AddMessages s' threadID rest)"

text \<open>The message that an append of \<open>(role, content, now)\<close> stores.\<close>

definition mkMessage :: "string \<times> string \<times> int \<Rightarrow> Message" where
  "mkMessage a = (case a of (role, content, now) \<Rightarrow>
     \<lparr>msg_Role = role, msg_Content = content, msg_Timestamp = now\<rparr>)"

text \<open>
  No expiry inside a run: no append comes more than \<open>maxAge\<close> after the one before it.
\<close>

fun noExpiry :: "int \<Rightarrow> (string \<times> string \<times> int) list \<Rightarrow> bool" where
  "noExpiry age [] = True"
| "noExpiry age [a] = True"
| "noExpiry age (a # b # rest) =
     (snd (snd b) - snd (snd a) \<le> age \<and> noExpiry age (b # rest))"

text \<open>
  The operations that write nothing to an entry: reads of any thread and sweeps of the
  background cleanup.
\<close>

datatype readOp = Read string int | Sweep int

fun runReadOp :: "Store \<Rightarrow> readOp \<Rightarrow> Store" where
  "runReadOp s (Read threadID now) = fst (GetMessages s threadID now)"
| "runReadOp s (Sweep now) = cleanup s now"

definition runReadOps :: "Store \<Rightarrow> readOp list \<Rightarrow> Store" where
  "runReadOps s ops = fold (\<lambda>op s. runReadOp s op) ops s"

section \<open>Document index\<close>

subsection \<open>Library functions on strings\<close>

definition HasPrefix :: "string \<Rightarrow> string \<Rightarrow> bool" where
  "HasPrefix s prefix = (length s \<ge> length prefix \<and> take (length prefix) s = prefix)"

definition HasSuffix :: "string \<Rightarrow> string \<Rightarrow> bool" where
  "HasSuffix s suffix =
     (length s \<ge> length suffix \<and> drop (length s - length suffix) s = suffix)"

definition TrimPrefix :: "string \<Rightarrow> string \<Rightarrow> string" where
  "TrimPrefix s prefix = (if HasPrefix s prefix then drop (length prefix) s else s)"

text \<open>
  The white space of \<open>strings.Fields\<close> and \<open>strings.TrimSpace\<close> is that of
  \<open>unicode.IsSpace\<close>: tab, line feed, vertical tab, form feed, carriage return, space,
  U+0085, U+00A0, U+1680, U+2000 to U+200A, U+2028, U+2029, U+202F, U+205F and U+3000.
  \<open>spaceEncodings\<close> lists their UTF-8 encodings. Each begins with a byte that is no
  continuation byte, so the decoder of the library finds a white-space character at a
  position exactly when one of the encodings begins there (\<open>spaceLen\<close> is its length),
  and finds one ending at a position exactly when one of the encodings ends there
  (\<open>spaceLenRev\<close>, on the reversed string).
\<close>

definition spaceEncodings :: "string list" where
  "spaceEncodings =
    [[CHR 0x09], [CHR 0x0A], [CHR 0x0B], [CHR 0x0C], [CHR 0x0D], [CHR 0x20],
     [CHR 0xC2, CHR 0x85], [CHR 0xC2, CHR 0xA0],
     [CHR 0xE1, CHR 0x9A, CHR 0x80],
     [CHR 0xE2, CHR 0x80, CHR 0x80], [CHR 0xE2, CHR 0x80, CHR 0x81],
     [CHR 0xE2, CHR 0x80, CHR 0x82], [CHR 0xE2, CHR 0x80, CHR 0x83],
     [CHR 0xE2, CHR 0x80, CHR 0x84], [CHR 0xE2, CHR 0x80, CHR 0x85],
     [CHR 0xE2, CHR 0x80, CHR 0x86], [CHR 0xE2, CHR 0x80, CHR 0x87],
     [CHR 0xE2, CHR 0x80, CHR 0x88], [CHR 0xE2, CHR 0x80, CHR 0x89],
     [CHR 0xE2, CHR 0x80, CHR 0x8A],
     [CHR 0xE2, CHR 0x80, CHR 0xA8], [CHR 0xE2, CHR 0x80, CHR 0xA9],
     [CHR 0xE2, CHR 0x80, CHR 0xAF],
     [CHR 0xE2, CHR 0x81, CHR 0x9F],
     [CHR 0xE3, CHR 0x80, CHR 0x80]]"

definition spaceLen :: "string \<Rightarrow> nat" where
  "spaceLen s =
     (case find (\<lambda>e. HasPrefix s e) spaceEncodings of None \<Rightarrow> 0 | Some e \<Rightarrow> length e)"

definition spaceLenRev :: "string \<Rightarrow> nat" where
  "spaceLenRev s =
     (case find (\<lambda>e. HasPrefix s (rev e)) spaceEncodings of None \<Rightarrow> 0 | Some e \<Rightarrow> length e)"

text \<open>
  Dropping the white space at the head of a string; \<open>skip\<close> counts the bytes that are left
  of the white-space character found last.
\<close>

fun trimFrom :: "(string \<Rightarrow> nat) \<Rightarrow> nat \<Rightarrow> string \<Rightarrow> string" where
  "trimFrom len skip [] = []"
| "trimFrom len skip (c # cs) =
     (if skip > 0 then trimFrom len (skip - 1) cs
      else if len (c # cs) > 0 then trimFrom len (len (c # cs) - 1) cs
      else c # cs)"

definition TrimSpace :: "string \<Rightarrow> string" where
  "TrimSpace s = rev (trimFrom spaceLenRev 0 (rev (trimFrom spaceLen 0 s)))"

text \<open>\<open>strings.Fields\<close>: the maximal pieces of the string that hold no white space.\<close>

fun FieldsFrom :: "string \<Rightarrow> nat \<Rightarrow> string \<Rightarrow> string list" where
  "FieldsFrom cur skip [] = (if cur = [] then [] else [cur])"
| "FieldsFrom cur skip (c # cs) =
     (if skip > 0 then FieldsFrom cur (skip - 1) cs
      else if spaceLen (c # cs) > 0
      then (if cur = [] then [] else [cur]) @ FieldsFrom [] (spaceLen (c # cs) - 1) cs
      else FieldsFrom (cur @ [c]) 0 cs)"

definition Fields :: "string \<Rightarrow> string list" where
  "Fields s = FieldsFrom [] 0 s"

text \<open>\<open>strings.Split(s, "\n")\<close>: the pieces between the line feeds, one more than there are.\<close>

fun SplitLines :: "string \<Rightarrow> string \<Rightarrow> string list" where
  "SplitLines cur [] = [cur]"
| "SplitLines cur (c # cs) =
     (if c = CHR 0x0A then cur # SplitLines [] cs else SplitLines (cur @ [c]) cs)"

text \<open>
  The classes of package \<open>regexp\<close> are ASCII classes: \<open>\s\<close> is tab, line feed, form feed,
  carriage return and space; the word characters of \<open>\b\<close> are the letters, the digits and
  the underscore. Every byte of a character beyond ASCII, and every byte that is not
  valid UTF-8, belongs to neither.
\<close>

definition isReSpace :: "char \<Rightarrow> bool" where
  "isReSpace c = (c \<in> set [CHR 0x09, CHR 0x0A, CHR 0x0C, CHR 0x0D, CHR 0x20])"

definition isLower :: "char \<Rightarrow> bool" where
  "isLower c = (97 \<le> (of_char c :: nat) \<and> (of_char c :: nat) \<le> 122)"

definition isWordChar :: "char \<Rightarrow> bool" where
  "isWordChar c = (isLower c
     \<or> (65 \<le> (of_char c :: nat) \<and> (of_char c :: nat) \<le> 90)
     \<or> (48 \<le> (of_char c :: nat) \<and> (of_char c :: nat) \<le> 57)
     \<or> c = CHR ''_'')"

text \<open>
  \<open>strings.ToLower\<close>, as far as ASCII goes: the letters \<open>A\<close> to \<open>Z\<close> become \<open>a\<close> to \<open>z\<close>,
  and the two characters beyond ASCII whose lower case is an ASCII letter, U+0130 and
  U+212A, become \<open>i\<close> and \<open>k\<close>. Any other character beyond ASCII, and any byte that is not
  valid UTF-8, is left as it is here, where the library writes the encoding of its lower
  case or of U+FFFD: bytes beyond ASCII in both cases, which is all that the two uses of
  the function (the suffix \<open>.md\<close> of a file name, the ASCII words of \<open>extractKeywords\<close>) can
  tell.
\<close>

definition toLowerChar :: "char \<Rightarrow> char" where
  "toLowerChar c =
     (case map_of (zip ''ABCDEFGHIJKLMNOPQRSTUVWXYZ'' ''abcdefghijklmnopqrstuvwxyz'') c of
        None \<Rightarrow> c
      | Some l \<Rightarrow> l)"

fun lowerFrom :: "nat \<Rightarrow> string \<Rightarrow> string" where
  "lowerFrom skip [] = []"
| "lowerFrom skip (c # cs) =
     (if skip > 0 then lowerFrom (skip - 1) cs
      else if HasPrefix (c # cs) [CHR 0xC4, CHR 0xB0] then CHR ''i'' # lowerFrom 1 cs
      else if HasPrefix (c # cs) [CHR 0xE2, CHR 0x84, CHR 0xAA] then CHR ''k'' # lowerFrom 2 cs
      else toLowerChar c # lowerFrom 0 cs)"

definition ToLower :: "string \<Rightarrow> string" where
  "ToLower s = lowerFrom 0 s"

text \<open>\<open>fmt.Sprintf("%d", n)\<close> for a number that is not negative.\<close>

fun showNat :: "nat \<Rightarrow> string" where
  "showNat n =
     (if n < 10 then [''0123456789'' ! n]
      else showNat (n div 10) @ [''0123456789'' ! (n mod 10)])"

declare showNat.simps [simp del]

subsection \<open>Data\<close>

record Document =
  doc_Path :: string
  doc_Title :: string
  doc_Content :: string
  doc_Metadata :: "string \<rightharpoonup> string"

record Chunk =
  ID :: string
  DocPath :: string
  Title :: string
  Content :: string
  Keywords :: "string list"
  Score :: real

text \<open>The field \<open>keywords\<close> of the service is \<open>keywordIndex\<close> here.\<close>

record DocumentService =
  documents :: "Document list"
  chunks :: "Chunk list"
  keywordIndex :: "string \<rightharpoonup> nat list"

definition NewDocumentService :: DocumentService where
  "NewDocumentService = \<lparr>documents = [], chunks = [], keywordIndex = Map.empty\<rparr>"

subsection \<open>Ingestion\<close>

fun titleLoop :: "string list \<Rightarrow> string" where
  "titleLoop [] = ''Untitled''"
| "titleLoop (line # lines) =
     (if HasPrefix (TrimSpace line) ''# '' then TrimPrefix (TrimSpace line) ''# ''
      else titleLoop lines)"

definition extractTitle :: "string \<Rightarrow> string" where
  "extractTitle content = titleLoop (SplitLines [] content)"

text \<open>
  \<open>cleanContent\<close> replaces every match of \<open>\n\s*\n\s*\n\<close> by two line feeds and trims the
  result. A match lies inside one maximal run of \<open>\s\<close> characters, begins at a line feed
  and needs two more line feeds after it; the leftmost match of a run begins at the
  first line feed of the run and, both stars being greedy, ends at its last line feed;
  what is left of the run holds no line feed. So a run with three line feeds or more has
  the part from its first to its last line feed replaced, and any other run is kept.
\<close>

definition collapseRun :: "string \<Rightarrow> string" where
  "collapseRun run =
     (if 3 \<le> length (filter (\<lambda>c. c = CHR 0x0A) run)
      then takeWhile (\<lambda>c. c \<noteq> CHR 0x0A) run @ [CHR 0x0A, CHR 0x0A]
             @ rev (takeWhile (\<lambda>c. c \<noteq> CHR 0x0A) (rev run))
      else run)"

fun replaceBlankLines :: "string \<Rightarrow> string \<Rightarrow> string" where
  "replaceBlankLines run [] = collapseRun run"
| "replaceBlankLines run (c # cs) =
     (if isReSpace c then replaceBlankLines (run @ [c]) cs
      else collapseRun run @ c # replaceBlankLines [] cs)"

definition cleanContent :: "string \<Rightarrow> string" where
  "cleanContent content = TrimSpace (replaceBlankLines [] content)"

text \<open>
  \<open>splitBySections\<close>: the loop over the lines, with the sections emitted so far and the
  builder \<open>currentSection\<close>.
\<close>

fun sectionLoop :: "string list \<Rightarrow> string list \<Rightarrow> string \<Rightarrow> string list" where
  "sectionLoop [] sections currentSection =
     (if length currentSection > 0 then sections @ [currentSection] else sections)"
| "sectionLoop (line # lines) sections currentSection =
     (if HasPrefix (TrimSpace line) ''#'' \<and> length currentSection > 0
      then sectionLoop lines (sections @ [currentSection]) (line @ [CHR 0x0A])
      else sectionLoop lines sections (currentSection @ line @ [CHR 0x0A]))"

definition splitBySections :: "string \<Rightarrow> string list" where
  "splitBySections content = sectionLoop (SplitLines [] content) [] []"

text \<open>
  \<open>splitIntoChunks\<close>: the loop over the words, with the slice \<open>chunks\<close> of the strings
  emitted so far (here \<open>emitted\<close>) and the builder \<open>currentChunk\<close>.
\<close>

fun chunkLoop :: "int \<Rightarrow> string list \<Rightarrow> string list \<Rightarrow> string \<Rightarrow> string list" where
  "chunkLoop chunkSize [] emitted currentChunk =
     (if length currentChunk > 0 then emitted @ [currentChunk] else emitted)"
| "chunkLoop chunkSize (word # words) emitted currentChunk =
     (if int (length currentChunk) + int (length word) + 1 > chunkSize \<and> length currentChunk > 0
      then chunkLoop chunkSize words (emitted @ [currentChunk]) word
      else if length currentChunk > 0
      then chunkLoop chunkSize words emitted (currentChunk @ '' '' @ word)
      else chunkLoop chunkSize words emitted (currentChunk @ word))"

definition splitIntoChunks :: "string \<Rightarrow> int \<Rightarrow> string list" where
  "splitIntoChunks text chunkSize =
     (if int (length text) \<le> chunkSize then [text]
      else chunkLoop chunkSize (Fields text) [] [])"

text \<open>
  \<open>extractKeywords\<close>. A match of \<open>\b[a-z]{3,}\b\<close> begins and ends at a word boundary and
  holds word characters only, so it is a maximal run of word characters; the matches
  are the maximal runs that are made of lower-case letters and have three of them or
  more, from left to right.
\<close>

fun wordRuns :: "string \<Rightarrow> string \<Rightarrow> string list" where
  "wordRuns cur [] = (if cur = [] then [] else [cur])"
| "wordRuns cur (c # cs) =
     (if isWordChar c then wordRuns (cur @ [c]) cs
      else (if cur = [] then [] else [cur]) @ wordRuns [] cs)"

definition regexWords :: "string \<Rightarrow> string list" where
  "regexWords text = filter (\<lambda>w. 3 \<le> length w \<and> list_all isLower w) (wordRuns [] text)"

definition stopWords :: "string list" where
  "stopWords =
    [''the'', ''and'', ''for'', ''are'', ''but'',
     ''not'', ''you'', ''all'', ''can'', ''had'',
     ''her'', ''was'', ''one'', ''our'', ''out'',
     ''day'', ''get'', ''has'', ''him'', ''his'',
     ''how'', ''its'', ''may'', ''new'', ''now'',
     ''old'', ''see'', ''two'', ''way'', ''who'',
     ''this'', ''that'', ''with'', ''have'', ''from'',
     ''they'', ''know'', ''want'', ''been'', ''good'',
     ''much'', ''some'', ''time'', ''very'', ''when'',
     ''come'', ''here'', ''just'', ''like'', ''long'',
     ''make'', ''many'', ''over'', ''such'', ''take'',
     ''than'', ''them'', ''well'', ''were'']"

fun keywordLoop :: "string list \<Rightarrow> string list \<Rightarrow> (string \<Rightarrow> bool) \<Rightarrow> string list" where
  "keywordLoop [] kws seen = kws"
| "keywordLoop (word # words) kws seen =
     (if word \<notin> set stopWords \<and> \<not> seen word \<and> length word > 3
      then keywordLoop words (kws @ [word]) (seen(word := True))
      else keywordLoop words kws seen)"

definition extractKeywords :: "string \<Rightarrow> string list" where
  "extractKeywords text = keywordLoop (regexWords (ToLower text)) [] (\<lambda>w. False)"

text \<open>The chunks that \<open>chunkDocument\<close> appends for section number \<open>i\<close>.\<close>

definition sectionChunks :: "Document \<Rightarrow> int \<Rightarrow> nat \<Rightarrow> string \<Rightarrow> Chunk list" where
  "sectionChunks doc chunkSize i section =
     (if int (length section) \<le> chunkSize
      then [\<lparr>ID = doc_Path doc @ ''_chunk_'' @ showNat i,
             DocPath = doc_Path doc,
             Title = doc_Title doc,
             Content = section,
             Keywords = extractKeywords section,
             Score = 0\<rparr>]
      else map (\<lambda>(j, subChunk).
             \<lparr>ID = doc_Path doc @ ''_chunk_'' @ showNat i @ ''_'' @ showNat j,
              DocPath = doc_Path doc,
              Title = doc_Title doc,
              Content = subChunk,
              Keywords = extractKeywords subChunk,
              Score = 0\<rparr>)
           (enumerate 0 (splitIntoChunks section chunkSize)))"

definition chunkDocument :: "DocumentService \<Rightarrow> Document \<Rightarrow> int \<Rightarrow> DocumentService" where
  "chunkDocument ds doc chunkSize =
     ds\<lparr>chunks := chunks ds @
          concat (map (\<lambda>(i, section). sectionChunks doc chunkSize i section)
                      (enumerate 0 (splitBySections (cleanContent (doc_Content doc)))))\<rparr>"

definition addPosting :: "nat \<Rightarrow> string \<Rightarrow> (string \<rightharpoonup> nat list) \<Rightarrow> (string \<rightharpoonup> nat list)" where
  "addPosting i keyword m =
     m(keyword \<mapsto> (case m keyword of None \<Rightarrow> [] | Some l \<Rightarrow> l) @ [i])"

definition buildKeywordIndex :: "DocumentService \<Rightarrow> DocumentService" where
  "buildKeywordIndex ds =
     ds\<lparr>keywordIndex :=
          fold (\<lambda>(i, chunk) m. fold (addPosting i) (Keywords chunk) m)
               (enumerate 0 (chunks ds)) Map.empty\<rparr>"

text \<open>
  \<open>LoadFromZip\<close>. The archive is what the reader finds: nothing when it cannot be opened,
  else the files in their order, each with its name and its content, or no content when
  reading it fails. When the archive cannot be opened the function returns the error
  before it has assigned anything.
\<close>

record zipFile =
  Name :: string
  Data :: "string option"

datatype loadError = ZipOpenFailed

definition loadFile :: "int \<Rightarrow> zipFile \<Rightarrow> DocumentService \<Rightarrow> DocumentService" where
  "loadFile chunkSize file ds =
     (if \<not> HasSuffix (ToLower (Name file)) ''.md'' then ds
      else case Data file of
             None \<Rightarrow> ds
           | Some content \<Rightarrow>
               let doc = \<lparr>doc_Path = Name file,
                          doc_Title = extractTitle content,
                          doc_Content = content,
                          doc_Metadata = [''size'' \<mapsto> showNat (length content)]\<rparr>
               in chunkDocument (ds\<lparr>documents := documents ds @ [doc]\<rparr>) doc chunkSize)"

definition LoadFromZip ::
  "DocumentService \<Rightarrow> zipFile list option \<Rightarrow> int \<Rightarrow> loadError + DocumentService" where
  "LoadFromZip ds archive chunkSize =
     (case archive of
        None \<Rightarrow> Inl ZipOpenFailed
      | Some files \<Rightarrow>
          Inr (buildKeywordIndex
                 (fold (loadFile chunkSize) files
                       (ds\<lparr>documents := [], chunks := [], keywordIndex := Map.empty\<rparr>))))"

subsection \<open>Search\<close>

definition weight :: "nat \<Rightarrow> nat \<Rightarrow> real" where
  "weight totalChunks postingListLength =
     ln (real totalChunks / real postingListLength) + 1"

definition addWeight :: "real \<Rightarrow> nat \<Rightarrow> (nat \<rightharpoonup> real) \<Rightarrow> (nat \<rightharpoonup> real)" where
  "addWeight w chunkIndex chunkScores =
     chunkScores(chunkIndex \<mapsto> (case chunkScores chunkIndex of None \<Rightarrow> 0 | Some s \<Rightarrow> s) + w)"

definition scoreWord :: "DocumentService \<Rightarrow> string \<Rightarrow> (nat \<rightharpoonup> real) \<Rightarrow> (nat \<rightharpoonup> real)" where
  "scoreWord ds queryWord chunkScores =
     (case keywordIndex ds queryWord of
        None \<Rightarrow> chunkScores
      | Some chunkIndices \<Rightarrow>
          fold (addWeight (weight (length (chunks ds)) (length chunkIndices)))
               chunkIndices chunkScores)"

definition chunkScores :: "DocumentService \<Rightarrow> string list \<Rightarrow> (nat \<rightharpoonup> real)" where
  "chunkScores ds queryWords = fold (scoreWord ds) queryWords Map.empty"

text \<open>
  The loop over \<open>chunkScores\<close> visits every key once, in an order that the language
  leaves open and the runtime varies from one loop to the next. The order of the visit
  is the argument \<open>order\<close>; \<open>rangeOrder\<close> says that it is an order of the keys.
\<close>

definition rangeOrder :: "(nat \<rightharpoonup> real) \<Rightarrow> nat list \<Rightarrow> bool" where
  "rangeOrder m order = (distinct order \<and> set order = dom m)"

definition collectScored ::
  "DocumentService \<Rightarrow> (nat \<rightharpoonup> real) \<Rightarrow> nat list \<Rightarrow> (Chunk \<times> real) list" where
  "collectScored ds m order =
     concat (map (\<lambda>chunkIndex.
        case m chunkIndex of
          None \<Rightarrow> []
        | Some score \<Rightarrow>
            if chunkIndex < length (chunks ds)
            then [((chunks ds ! chunkIndex)\<lparr>Score := score\<rparr>, score)]
            else []) order)"

text \<open>
  \<open>sort.Slice\<close> belongs to the standard library: it sorts by the given \<open>less\<close> (here \<open>lt\<close>) and does
  not promise to be stable. It is the argument \<open>sortSlice\<close> of the search, and
  \<open>sortSliceSpec\<close> is what the library promises. For slices of at most twelve elements
  the library runs the insertion sort that \<open>insertionSort\<close> embeds.
\<close>

definition sortSliceSpec ::
  "(('a \<Rightarrow> 'a \<Rightarrow> bool) \<Rightarrow> 'a list \<Rightarrow> 'a list) \<Rightarrow> ('a \<Rightarrow> 'a \<Rightarrow> bool) \<Rightarrow> bool" where
  "sortSliceSpec sortSlice lt =
     (\<forall>xs. mset (sortSlice lt xs) = mset xs
          \<and> sorted_wrt (\<lambda>a b. \<not> lt b a) (sortSlice lt xs))"

text \<open>
  The insertion sort of the library takes the elements from left to right and swaps each
  with its left neighbour as long as it is \<open>less\<close> than that neighbour. \<open>insertLast\<close> is
  one such insertion, on the sorted part in reverse (its last element first).
\<close>

fun insertLast :: "('a \<Rightarrow> 'a \<Rightarrow> bool) \<Rightarrow> 'a \<Rightarrow> 'a list \<Rightarrow> 'a list" where
  "insertLast lt x [] = [x]"
| "insertLast lt x (y # ys) = (if lt x y then y # insertLast lt x ys else x # y # ys)"

definition insertionSort :: "('a \<Rightarrow> 'a \<Rightarrow> bool) \<Rightarrow> 'a list \<Rightarrow> 'a list" where
  "insertionSort lt xs = rev (foldl (\<lambda>p x. insertLast lt x p) [] xs)"

definition scoreLess :: "Chunk \<times> real \<Rightarrow> Chunk \<times> real \<Rightarrow> bool" where
  "scoreLess a b = (snd a > snd b)"

definition SearchRelevantChunks ::
  "((Chunk \<times> real \<Rightarrow> Chunk \<times> real \<Rightarrow> bool) \<Rightarrow> (Chunk \<times> real) list \<Rightarrow> (Chunk \<times> real) list)
     \<Rightarrow> nat list \<Rightarrow> DocumentService \<Rightarrow> string \<Rightarrow> int \<Rightarrow> Chunk list" where
  "SearchRelevantChunks sortSlice order ds query maxChunks =
     (if length (chunks ds) = 0 then []
      else let queryWords = extractKeywords (ToLower query) in
        if length queryWords = 0 then []
        else let scoredChunks = collectScored ds (chunkScores ds queryWords) order
             in map fst (take (nat maxChunks) (sortSlice scoreLess scoredChunks)))"

subsection \<open>Auxiliary notions for the properties of ingestion\<close>

text \<open>
  \<open>wholeWordOf docs c\<close>: the string \<open>c\<close> is one of the white-space-delimited words of a
  section of one of the documents.
\<close>

definition wholeWordOf :: "Document list \<Rightarrow> string \<Rightarrow> bool" where
  "wholeWordOf docs c =
     (\<exists>doc\<in>set docs. \<exists>section\<in>set (splitBySections (cleanContent (doc_Content doc))).
        c \<in> set (Fields section))"

text \<open>An archive with one document whose first word is longer than a chunk size of 3.\<close>

definition exampleLongWord :: "zipFile list" where
  "exampleLongWord = [\<lparr>Name = ''a.md'', Data = Some ''aaaaaaa bb''\<rparr>]"

subsection \<open>Auxiliary notions for the properties of the search\<close>

text \<open>
  The positions of the chunks, from position \<open>n\<close> on, that have \<open>kw\<close> among their keywords.
\<close>

definition postings :: "nat \<Rightarrow> Chunk list \<Rightarrow> string \<Rightarrow> nat list" where
  "postings n cs kw = map fst (filter (\<lambda>(i, c). kw \<in> set (Keywords c)) (enumerate n cs))"

text \<open>
  The query keywords that are present in the inverted index with a posting list that
  holds position \<open>i\<close>.
\<close>

definition matchedKeywords :: "DocumentService \<Rightarrow> string list \<Rightarrow> nat \<Rightarrow> string set" where
  "matchedKeywords ds queryWords i =
     {kw \<in> set queryWords. \<exists>l. keywordIndex ds kw = Some l \<and> i \<in> set l}"

text \<open>
  The accumulated score of position \<open>i\<close>: what \<open>chunkScores[i]\<close> reads after the scoring
  loop, zero for a position that the loop never touched.
\<close>

definition accumulatedScore :: "DocumentService \<Rightarrow> string list \<Rightarrow> nat \<Rightarrow> real" where
  "accumulatedScore ds queryWords i =
     (case chunkScores ds queryWords i of None \<Rightarrow> 0 | Some s \<Rightarrow> s)"


text \<open>
  What holds of every index that \<open>LoadFromZip\<close> builds: the keywords of a chunk are those
  that \<open>extractKeywords\<close> finds in its content, and the posting list of a keyword holds
  the positions of the chunks that have it, in ascending order, each once; a keyword of
  no chunk has no entry.
\<close>

definition wellFormed :: "DocumentService \<Rightarrow> bool" where
  "wellFormed ds =
     ((\<forall>c\<in>set (chunks ds). Keywords c = extractKeywords (Content c))
      \<and> (\<forall>kw. keywordIndex ds kw =
            (if postings 0 (chunks ds) kw = [] then None else Some (postings 0 (chunks ds) kw))))"

text \<open>The weight that the scoring loop adds for a keyword of the index.\<close>

definition wordWeight :: "DocumentService \<Rightarrow> string \<Rightarrow> real" where
  "wordWeight ds kw =
     weight (length (chunks ds)) (length (the (keywordIndex ds kw)))"

text \<open>Position \<open>i\<close> is on the posting list of the keyword.\<close>

definition matches :: "DocumentService \<Rightarrow> nat \<Rightarrow> string \<Rightarrow> bool" where
  "matches ds i kw = (\<exists>l. keywordIndex ds kw = Some l \<and> i \<in> set l)"

text \<open>The scored chunks after \<open>sort.Slice\<close>, before the cut at \<open>maxChunks\<close>.\<close>

definition searchPairs ::
  "((Chunk \<times> real \<Rightarrow> Chunk \<times> real \<Rightarrow> bool) \<Rightarrow> (Chunk \<times> real) list \<Rightarrow> (Chunk \<times> real) list)
     \<Rightarrow> nat list \<Rightarrow> DocumentService \<Rightarrow> string list \<Rightarrow> (Chunk \<times> real) list" where
  "searchPairs sortSlice order ds qws =
     sortSlice scoreLess (collectScored ds (chunkScores ds qws) order)"


text \<open>
  An archive of two documents, the first with the words \<open>refund policy\<close>, the second with
  the word \<open>refund\<close>, and the index that \<open>LoadFromZip\<close> builds from it.
\<close>

definition exampleArchive :: "zipFile list" where
  "exampleArchive =
     [\<lparr>Name = ''a.md'', Data = Some ''refund policy''\<rparr>,
      \<lparr>Name = ''b.md'', Data = Some ''refund''\<rparr>]"

definition exampleIndex :: DocumentService where
  "exampleIndex =
     buildKeywordIndex (fold (loadFile 1000) exampleArchive
       (NewDocumentService\<lparr>documents := [], chunks := [], keywordIndex := Map.empty\<rparr>))"

section \<open>Properties of the conversation store\<close>

lemma olderThan_fresh: "now - t \<le> age \<Longrightarrow> \<not> olderThan age now t"
  by (simp add: olderThan_def)

lemma olderThan_exact:
  "age < 9223372036854775807 \<Longrightarrow> olderThan age now t = (now - t > age)"
  by (auto simp: olderThan_def maxDuration_def)

lemma drop_keep_append:
  "drop (length (drop (length xs - m) xs @ ys) - m) (drop (length xs - m) xs @ ys)
     = drop (length (xs @ ys) - m) (xs @ ys)"
  by (cases "length xs \<le> m") (auto simp: drop_append add.commute)

lemma reslice_eq:
  "0 \<le> m \<Longrightarrow> int (length msgs) > m \<Longrightarrow>
     drop (nat (int (length msgs) - m)) msgs = drop (length msgs - nat m) msgs"
  by (simp add: nat_diff_distrib)

lemma no_reslice_eq:
  "\<not> int (length msgs) > m \<Longrightarrow> drop (length msgs - nat m) msgs = msgs"
  by simp

lemma AddMessage_result:
  assumes "0 \<le> maxMessages s"
  shows "\<exists>s' ctx. AddMessage s threadID role content now = Inr s'
           \<and> maxMessages s' = maxMessages s \<and> maxAge s' = maxAge s
           \<and> conversations s' threadID = Some ctx
           \<and> LastAccessed ctx = now
           \<and> Messages ctx = 
                (let msgs = snd (GetMessages s threadID now) @ [mkMessage (role, content, now)]
                 in drop (length msgs - nat (maxMessages s)) msgs)"
proof -
  obtain s1 ctx where g: "GetOrCreate s threadID now = (s1, ctx)" by force
  let ?msgs = "Messages ctx @ [mkMessage (role, content, now)]"
  from g have m1: "maxMessages s1 = maxMessages s" "maxAge s1 = maxAge s"
    and la: "LastAccessed ctx = now"
    and ms: "Messages ctx = snd (GetMessages s threadID now)"
    by (auto simp: GetOrCreate_def GetMessages_def Let_def split: option.splits)
  show ?thesis
  proof (cases "int (length ?msgs) > maxMessages s")
    case True
    then have "AddMessage s threadID role content now =
      Inr (s1\<lparr>conversations := (conversations s1)(threadID \<mapsto>
             ctx\<lparr>Messages := drop (nat (int (length ?msgs) - maxMessages s)) ?msgs\<rparr>)\<rparr>)"
      using assms g m1 by (simp add: AddMessage_def mkMessage_def Let_def)
    moreover have "drop (nat (int (length ?msgs) - maxMessages s)) ?msgs
         = drop (length ?msgs - nat (maxMessages s)) ?msgs"
      using reslice_eq[OF assms True] .
    ultimately show ?thesis using m1 la ms by (simp add: Let_def)
  next
    case False
    then have "AddMessage s threadID role content now =
      Inr (s1\<lparr>conversations := (conversations s1)(threadID \<mapsto> ctx\<lparr>Messages := ?msgs\<rparr>)\<rparr>)"
      using g m1 by (simp add: AddMessage_def mkMessage_def Let_def)
    moreover have "drop (length ?msgs - nat (maxMessages s)) ?msgs = ?msgs"
      using no_reslice_eq[OF False] .
    ultimately show ?thesis using m1 la ms by (simp add: Let_def)
  qed
qed

lemma AddMessages_result:
  assumes "0 \<le> maxMessages s" and "noExpiry (maxAge s) (a # rest)"
  shows "\<exists>s' ctx. AddMessages s threadID (a # rest) = Inr s'
           \<and> maxMessages s' = maxMessages s \<and> maxAge s' = maxAge s
           \<and> conversations s' threadID = Some ctx
           \<and> LastAccessed ctx = snd (snd (last (a # rest)))
           \<and> Messages ctx =
                (let msgs = snd (GetMessages s threadID (snd (snd a))) @ map mkMessage (a # rest)
                 in drop (length msgs - nat (maxMessages s)) msgs)"
  using assms
proof (induction rest arbitrary: a s)
  case Nil
  obtain role content now where a: "a = (role, content, now)" by (cases a) auto
  from AddMessage_result[OF Nil(1), of threadID role content now]
  show ?case by (auto simp: a Let_def)
next
  case (Cons b rest)
  obtain role content now where a: "a = (role, content, now)" by (cases a) auto
  from AddMessage_result[OF Cons.prems(1), of threadID role content now]
  obtain s1 ctx1 where s1: "AddMessage s threadID role content now = Inr s1"
    "maxMessages s1 = maxMessages s" "maxAge s1 = maxAge s"
    "conversations s1 threadID = Some ctx1" "LastAccessed ctx1 = now"
    "Messages ctx1 = (let msgs = snd (GetMessages s threadID now) @ [mkMessage (role, content, now)]
                 in drop (length msgs - nat (maxMessages s)) msgs)" by blast
  from Cons.prems(2) have fresh: "snd (snd b) - now \<le> maxAge s" and ne: "noExpiry (maxAge s1) (b # rest)"
    by (simp_all add: a s1)
  have g: "snd (GetMessages s1 threadID (snd (snd b))) = Messages ctx1"
    using olderThan_fresh[OF fresh] s1 by (simp add: GetMessages_def)
  from Cons.IH[of s1 b] Cons.prems(1) ne s1(2)
  obtain s' ctx where s': "AddMessages s1 threadID (b # rest) = Inr s'"
     "maxMessages s' = maxMessages s1" "maxAge s' = maxAge s1"
     "conversations s' threadID = Some ctx" "LastAccessed ctx = snd (snd (last (b # rest)))"
     "Messages ctx = (let msgs = snd (GetMessages s1 threadID (snd (snd b))) @ map mkMessage (b # rest)
                 in drop (length msgs - nat (maxMessages s1)) msgs)" by auto
  have "Messages ctx = (let msgs = snd (GetMessages s threadID now) @ map mkMessage (a # b # rest)
                 in drop (length msgs - nat (maxMessages s)) msgs)"
    unfolding s'(6) g s1(6) s1(2) Let_def
    using drop_keep_append[of "snd (GetMessages s threadID now) @ [mkMessage (role, content, now)]"
        "nat (maxMessages s)" "map mkMessage (b # rest)"]
    by (simp add: a)
  moreover have "AddMessages s threadID (a # b # rest) = Inr s'"
    using s1(1) s'(1) by (simp add: a)
  ultimately show ?case using s' s1 by (simp add: a)
qed

text \<open>
  Claim C5. With a message bound \<open>maxMessages \<ge> 0\<close>, after \<open>maxMessages + N\<close> appends
  to one thread (\<open>N \<ge> 1\<close>, no append more than \<open>maxAge\<close> after the one before it, and
  the read no more than \<open>maxAge\<close> after the last append), every append succeeds and
  \<open>GetMessages\<close> returns exactly the last \<open>maxMessages\<close> appended messages, in the order
  of the appends: the first \<open>N\<close> are gone. This holds whatever the thread's entry was
  before the run.
\<close>

theorem AddMessage_keeps_most_recent:
  assumes "0 \<le> maxMessages s"
    and "int (length as) = maxMessages s + int N" and "1 \<le> N"
    and "noExpiry (maxAge s) as"
    and "now - snd (snd (last as)) \<le> maxAge s"
  shows "\<exists>s'. AddMessages s threadID as = Inr s'
           \<and> snd (GetMessages s' threadID now) = map mkMessage (drop N as)
           \<and> int (length (snd (GetMessages s' threadID now))) = maxMessages s"
proof -
  from assms(1-3) obtain a rest where as: "as = a # rest" by (cases as) auto
  from AddMessages_result[OF assms(1) assms(4)[unfolded as], of threadID]
  obtain s' ctx where s': "AddMessages s threadID as = Inr s'"
     "maxAge s' = maxAge s"
     "conversations s' threadID = Some ctx" "LastAccessed ctx = snd (snd (last as))"
     "Messages ctx = (let msgs = snd (GetMessages s threadID (snd (snd a))) @ map mkMessage as
                 in drop (length msgs - nat (maxMessages s)) msgs)" unfolding as by blast
  have len: "length as = nat (maxMessages s) + N" using assms(1,2) by linarith
  have "Messages ctx = map mkMessage (drop N as)"
    unfolding s'(5) Let_def using len by (simp add: drop_map)
  moreover have "snd (GetMessages s' threadID now) = Messages ctx"
    using s' olderThan_fresh[OF assms(5)] by (simp add: GetMessages_def)
  ultimately show ?thesis using s'(1) len assms(1) by simp
qed

theorem AddMessage_keeps_most_recent_witness:
  "0 \<le> maxMessages \<lparr>conversations = Map.empty, maxMessages = 2, maxAge = 10\<rparr>
   \<and> int (length [(''user'', ''a'', 0::int), (''assistant'', ''b'', 1), (''user'', ''c'', 2)])
        = maxMessages \<lparr>conversations = Map.empty, maxMessages = 2, maxAge = 10\<rparr> + int 1
   \<and> (1::nat) \<le> 1
   \<and> noExpiry (maxAge \<lparr>conversations = Map.empty, maxMessages = 2, maxAge = 10\<rparr>)
         [(''user'', ''a'', 0), (''assistant'', ''b'', 1), (''user'', ''c'', 2)]
   \<and> 3 - snd (snd (last [(''user'', ''a'', 0::int), (''assistant'', ''b'', 1), (''user'', ''c'', 2)]))
        \<le> maxAge \<lparr>conversations = Map.empty, maxMessages = 2, maxAge = 10\<rparr>
   \<and> (\<exists>s'. AddMessages \<lparr>conversations = Map.empty, maxMessages = 2, maxAge = 10\<rparr> ''T1''
               [(''user'', ''a'', 0), (''assistant'', ''b'', 1), (''user'', ''c'', 2)] = Inr s'
          \<and> snd (GetMessages s' ''T1'' 3)
              = [\<lparr>msg_Role = ''assistant'', msg_Content = ''b'', msg_Timestamp = 1\<rparr>,
                 \<lparr>msg_Role = ''user'', msg_Content = ''c'', msg_Timestamp = 2\<rparr>])"
proof -
  let ?s = "\<lparr>conversations = Map.empty, maxMessages = 2, maxAge = 10\<rparr>"
  let ?as = "[(''user'', ''a'', 0::int), (''assistant'', ''b'', 1), (''user'', ''c'', 2)]"
  have h1: "0 \<le> maxMessages ?s" by simp
  have h2: "int (length ?as) = maxMessages ?s + int 1" by simp
  have h3: "(1::nat) \<le> 1" by simp
  have h4: "noExpiry (maxAge ?s) ?as" by simp
  have h5: "3 - snd (snd (last ?as)) \<le> maxAge ?s" by simp
  from AddMessage_keeps_most_recent[OF h1 h2 h3 h4 h5, of "''T1''"]
  obtain s' where r: "AddMessages ?s ''T1'' ?as = Inr s'"
    "snd (GetMessages s' ''T1'' 3) = map mkMessage (drop 1 ?as)" by blast
  have "map mkMessage (drop 1 ?as)
          = [\<lparr>msg_Role = ''assistant'', msg_Content = ''b'', msg_Timestamp = 1\<rparr>,
             \<lparr>msg_Role = ''user'', msg_Content = ''c'', msg_Timestamp = 2\<rparr>]"
    by (simp add: mkMessage_def)
  with r have "\<exists>s'. AddMessages ?s ''T1'' ?as = Inr s'
          \<and> snd (GetMessages s' ''T1'' 3)
              = [\<lparr>msg_Role = ''assistant'', msg_Content = ''b'', msg_Timestamp = 1\<rparr>,
                 \<lparr>msg_Role = ''user'', msg_Content = ''c'', msg_Timestamp = 2\<rparr>]"
    by metis
  with h1 h2 h3 h4 h5 show ?thesis by blast
qed

lemma runReadOp_keeps:
  "maxAge (runReadOp s op) = maxAge s \<and>
   (conversations (runReadOp s op) threadID = None
     \<or> conversations (runReadOp s op) threadID = conversations s threadID)"
  by (cases op) (auto simp: GetMessages_def cleanup_def split: option.splits)

lemma runReadOps_keeps:
  "maxAge (runReadOps s ops) = maxAge s \<and>
   (conversations (runReadOps s ops) threadID = None
     \<or> conversations (runReadOps s ops) threadID = conversations s threadID)"
  unfolding runReadOps_def
proof (induction ops arbitrary: s)
  case Nil
  show ?case by simp
next
  case (Cons op ops)
  from Cons.IH[of "runReadOp s op"] runReadOp_keeps[of s op threadID]
  show ?case by auto
qed

lemma AddMessage_LastAccessed:
  assumes "AddMessage s threadID role content now = Inr s'"
  shows "maxAge s' = maxAge s \<and> (\<exists>ctx. conversations s' threadID = Some ctx \<and> LastAccessed ctx = now)"
  using assms
  by (auto simp: AddMessage_def GetOrCreate_def Let_def split: if_splits option.splits)

text \<open>
  Claim C6. With \<open>maxAge\<close> below the largest \<open>Duration\<close> (at the largest one
  \<open>time.Since\<close> saturates and nothing expires), \<open>GetMessages\<close> returns the stored messages of
  the thread when the entry exists and \<open>now - LastAccessed \<le> maxAge\<close>, the empty sequence
  otherwise, and leaves the store as it was (in particular \<open>LastAccessed\<close>). Hence, after an
  append at \<open>t0\<close>, any number of reads and cleanup sweeps later, a read at a time \<open>t\<close> with
  \<open>t - t0 > maxAge\<close> returns the empty sequence.
\<close>

theorem GetMessages_read_only_expiry:
  assumes "maxAge s < 9223372036854775807"
  shows "GetMessages s threadID now =
     (s, case conversations s threadID of
           None \<Rightarrow> []
         | Some ctx \<Rightarrow> if now - LastAccessed ctx \<le> maxAge s then Messages ctx else [])
   \<and> (AddMessage s threadID role content t0 = Inr s1 \<longrightarrow> t - t0 > maxAge s \<longrightarrow>
        snd (GetMessages (runReadOps s1 ops) threadID t) = [])"
proof -
  have a: "GetMessages s threadID now =
     (s, case conversations s threadID of
           None \<Rightarrow> []
         | Some ctx \<Rightarrow> if now - LastAccessed ctx \<le> maxAge s then Messages ctx else [])"
    by (simp add: GetMessages_def olderThan_exact[OF assms] split: option.splits)
  have b: "snd (GetMessages (runReadOps s1 ops) threadID t) = []"
    if add: "AddMessage s threadID role content t0 = Inr s1" and late: "t - t0 > maxAge s"
  proof -
    from AddMessage_LastAccessed[OF add] obtain ctx where
      c: "maxAge s1 = maxAge s" "conversations s1 threadID = Some ctx" "LastAccessed ctx = t0"
      by blast
    have o: "olderThan (maxAge s) t t0" using olderThan_exact[OF assms] late by simp
    from runReadOps_keeps[of s1 ops threadID] c o
    show ?thesis by (auto simp: GetMessages_def)
  qed
  from a b show ?thesis by blast
qed

theorem GetMessages_read_only_expiry_witness:
  "maxAge \<lparr>conversations = Map.empty, maxMessages = 2, maxAge = 10\<rparr> < 9223372036854775807
   \<and> AddMessage \<lparr>conversations = Map.empty, maxMessages = 2, maxAge = 10\<rparr> ''T1'' ''user'' ''hi'' 0
     = Inr \<lparr>conversations = [''T1'' \<mapsto> \<lparr>ThreadID = ''T1'',
               Messages = [\<lparr>msg_Role = ''user'', msg_Content = ''hi'', msg_Timestamp = 0\<rparr>],
               LastAccessed = 0\<rparr>], maxMessages = 2, maxAge = 10\<rparr>
   \<and> 11 - 0 > maxAge \<lparr>conversations = Map.empty, maxMessages = 2, maxAge = 10\<rparr>
   \<and> snd (GetMessages \<lparr>conversations = [''T1'' \<mapsto> \<lparr>ThreadID = ''T1'',
               Messages = [\<lparr>msg_Role = ''user'', msg_Content = ''hi'', msg_Timestamp = 0\<rparr>],
               LastAccessed = 0\<rparr>], maxMessages = 2, maxAge = 10\<rparr> ''T1'' 5)
        = [\<lparr>msg_Role = ''user'', msg_Content = ''hi'', msg_Timestamp = 0\<rparr>]
   \<and> snd (GetMessages (runReadOps \<lparr>conversations = [''T1'' \<mapsto> \<lparr>ThreadID = ''T1'',
               Messages = [\<lparr>msg_Role = ''user'', msg_Content = ''hi'', msg_Timestamp = 0\<rparr>],
               LastAccessed = 0\<rparr>], maxMessages = 2, maxAge = 10\<rparr> [Read ''T1'' 5, Sweep 9])
             ''T1'' 11) = []"
proof -
  let ?s = "\<lparr>conversations = Map.empty, maxMessages = 2, maxAge = 10\<rparr>"
  let ?s1 = "\<lparr>conversations = [''T1'' \<mapsto> \<lparr>ThreadID = ''T1'',
               Messages = [\<lparr>msg_Role = ''user'', msg_Content = ''hi'', msg_Timestamp = 0\<rparr>],
               LastAccessed = 0\<rparr>], maxMessages = 2, maxAge = 10\<rparr>"
  have h0: "maxAge ?s < 9223372036854775807" by simp
  have h0': "maxAge ?s1 < 9223372036854775807" by simp
  have h1: "AddMessage ?s ''T1'' ''user'' ''hi'' 0 = Inr ?s1"
    by (simp add: AddMessage_def GetOrCreate_def olderThan_def maxDuration_def Let_def)
  have h2: "11 - 0 > maxAge ?s" by simp
  have h3: "snd (GetMessages ?s1 ''T1'' 5)
        = [\<lparr>msg_Role = ''user'', msg_Content = ''hi'', msg_Timestamp = 0\<rparr>]"
    using GetMessages_read_only_expiry[OF h0', of "''T1''" 5] by simp
  from GetMessages_read_only_expiry[OF h0, of "''T1''" 0 "''user''" "''hi''" 0 ?s1 11
      "[Read ''T1'' 5, Sweep 9]"] h1 h2
  have "snd (GetMessages (runReadOps ?s1 [Read ''T1'' 5, Sweep 9]) ''T1'' 11) = []"
    by blast
  with h0 h1 h2 h3 show ?thesis by blast
qed

text \<open>
  Claim C7. With \<open>maxAge\<close> below the largest \<open>Duration\<close>, for an entry that exists and is
  stale (\<open>now - LastAccessed > maxAge\<close>): \<open>GetOrCreate\<close> empties its messages and sets
  \<open>LastAccessed\<close> to \<open>now\<close>, so that after \<open>AddMessage\<close> the entry holds the new message
  alone (nothing when \<open>maxMessages = 0\<close>; a negative \<open>maxMessages\<close> panics in the reslice);
  \<open>GetMessages\<close> returns the empty sequence and the stored messages of the stale entry
  stay as they were.
\<close>

theorem stale_entry_write_clears_read_keeps:
  assumes "maxAge s < 9223372036854775807"
    and "conversations s threadID = Some ctx" and "now - LastAccessed ctx > maxAge s"
  shows "GetOrCreate s threadID now =
           (s\<lparr>conversations := (conversations s)(threadID \<mapsto> ctx\<lparr>Messages := [], LastAccessed := now\<rparr>)\<rparr>,
            ctx\<lparr>Messages := [], LastAccessed := now\<rparr>)
       \<and> AddMessage s threadID role content now =
           (if maxMessages s < 0 then Inl SliceBoundsOutOfRange
            else Inr (s\<lparr>conversations := (conversations s)(threadID \<mapsto>
                   ctx\<lparr>Messages := (if maxMessages s = 0 then []
                                      else [\<lparr>msg_Role = role, msg_Content = content, msg_Timestamp = now\<rparr>]),
                       LastAccessed := now\<rparr>)\<rparr>))
       \<and> GetMessages s threadID now = (s, [])
       \<and> conversations (fst (GetMessages s threadID now)) threadID = Some ctx"
proof -
  have o: "olderThan (maxAge s) now (LastAccessed ctx)"
    using olderThan_exact[OF assms(1)] assms(3) by simp
  show ?thesis using assms(2) o
    by (cases ctx) (auto simp: GetOrCreate_def AddMessage_def GetMessages_def Let_def)
qed

theorem stale_entry_write_clears_read_keeps_witness:
  "maxAge \<lparr>conversations = [''T1'' \<mapsto> \<lparr>ThreadID = ''T1'',
               Messages = [\<lparr>msg_Role = ''user'', msg_Content = ''old'', msg_Timestamp = 0\<rparr>],
               LastAccessed = 0\<rparr>], maxMessages = 2, maxAge = 10\<rparr> < 9223372036854775807
   \<and> conversations \<lparr>conversations = [''T1'' \<mapsto> \<lparr>ThreadID = ''T1'',
               Messages = [\<lparr>msg_Role = ''user'', msg_Content = ''old'', msg_Timestamp = 0\<rparr>],
               LastAccessed = 0\<rparr>], maxMessages = 2, maxAge = 10\<rparr> ''T1''
     = Some \<lparr>ThreadID = ''T1'',
               Messages = [\<lparr>msg_Role = ''user'', msg_Content = ''old'', msg_Timestamp = 0\<rparr>],
               LastAccessed = 0\<rparr>
   \<and> 11 - LastAccessed \<lparr>ThreadID = ''T1'',
               Messages = [\<lparr>msg_Role = ''user'', msg_Content = ''old'', msg_Timestamp = 0\<rparr>],
               LastAccessed = 0\<rparr>
        > maxAge \<lparr>conversations = [''T1'' \<mapsto> \<lparr>ThreadID = ''T1'',
               Messages = [\<lparr>msg_Role = ''user'', msg_Content = ''old'', msg_Timestamp = 0\<rparr>],
               LastAccessed = 0\<rparr>], maxMessages = 2, maxAge = 10\<rparr>
   \<and> AddMessage \<lparr>conversations = [''T1'' \<mapsto> \<lparr>ThreadID = ''T1'',
               Messages = [\<lparr>msg_Role = ''user'', msg_Content = ''old'', msg_Timestamp = 0\<rparr>],
               LastAccessed = 0\<rparr>], maxMessages = 2, maxAge = 10\<rparr> ''T1'' ''user'' ''new'' 11
     = Inr \<lparr>conversations = [''T1'' \<mapsto> \<lparr>ThreadID = ''T1'',
               Messages = [\<lparr>msg_Role = ''user'', msg_Content = ''new'', msg_Timestamp = 11\<rparr>],
               LastAccessed = 11\<rparr>], maxMessages = 2, maxAge = 10\<rparr>
   \<and> snd (GetMessages \<lparr>conversations = [''T1'' \<mapsto> \<lparr>ThreadID = ''T1'',
               Messages = [\<lparr>msg_Role = ''user'', msg_Content = ''old'', msg_Timestamp = 0\<rparr>],
               LastAccessed = 0\<rparr>], maxMessages = 2, maxAge = 10\<rparr> ''T1'' 11) = []"
proof -
  let ?c = "\<lparr>ThreadID = ''T1'',
               Messages = [\<lparr>msg_Role = ''user'', msg_Content = ''old'', msg_Timestamp = 0\<rparr>],
               LastAccessed = 0\<rparr>"
  let ?s = "\<lparr>conversations = [''T1'' \<mapsto> ?c], maxMessages = 2, maxAge = 10\<rparr>"
  have h0: "maxAge ?s < 9223372036854775807" by simp
  have h1: "conversations ?s ''T1'' = Some ?c" by simp
  have h2: "11 - LastAccessed ?c > maxAge ?s" by simp
  from stale_entry_write_clears_read_keeps[OF h0 h1 h2, of "''user''" "''new''"]
  have "AddMessage ?s ''T1'' ''user'' ''new'' 11
     = Inr \<lparr>conversations = [''T1'' \<mapsto> \<lparr>ThreadID = ''T1'',
               Messages = [\<lparr>msg_Role = ''user'', msg_Content = ''new'', msg_Timestamp = 11\<rparr>],
               LastAccessed = 11\<rparr>], maxMessages = 2, maxAge = 10\<rparr>"
    and "snd (GetMessages ?s ''T1'' 11) = []"
    by simp_all
  with h0 h1 h2 show ?thesis by blast
qed

section \<open>Properties of ingestion\<close>

lemma chunkLoop_bound:
  assumes "\<forall>c\<in>set emitted. int (length c) \<le> chunkSize \<or> c \<in> W"
    and "currentChunk = [] \<or> int (length currentChunk) \<le> chunkSize \<or> currentChunk \<in> W"
    and "set words \<subseteq> W"
    and "c \<in> set (chunkLoop chunkSize words emitted currentChunk)"
  shows "int (length c) \<le> chunkSize \<or> c \<in> W"
  using assms
proof (induction words arbitrary: emitted currentChunk)
  case Nil
  then show ?case by (auto split: if_splits)
next
  case (Cons word words)
  show ?case
  proof (cases "int (length currentChunk) + int (length word) + 1 > chunkSize \<and> length currentChunk > 0")
    case True
    with Cons.prems(4) have m: "c \<in> set (chunkLoop chunkSize words (emitted @ [currentChunk]) word)"
      by simp
    show ?thesis
      by (rule Cons.IH[OF _ _ _ m]) (use Cons.prems True in auto)
  next
    case False
    show ?thesis
    proof (cases "length currentChunk > 0")
      case True
      with False Cons.prems(4)
      have m: "c \<in> set (chunkLoop chunkSize words emitted (currentChunk @ '' '' @ word))" by simp
      show ?thesis
        by (rule Cons.IH[OF _ _ _ m]) (use Cons.prems True False in auto)
    next
      case e: False
      with Cons.prems(4)
      have m: "c \<in> set (chunkLoop chunkSize words emitted (currentChunk @ word))" by simp
      show ?thesis
        by (rule Cons.IH[OF _ _ _ m]) (use Cons.prems e in auto)
    qed
  qed
qed

lemma splitIntoChunks_bound:
  assumes "c \<in> set (splitIntoChunks text chunkSize)"
  shows "int (length c) \<le> chunkSize \<or> c \<in> set (Fields text)"
proof (cases "int (length text) \<le> chunkSize")
  case True
  with assms show ?thesis by (simp add: splitIntoChunks_def)
next
  case False
  with assms have "c \<in> set (chunkLoop chunkSize (Fields text) [] [])"
    by (simp add: splitIntoChunks_def)
  from chunkLoop_bound[OF _ _ _ this, of "set (Fields text)"] show ?thesis by simp
qed

lemma sectionChunks_bound:
  assumes "c \<in> set (sectionChunks doc chunkSize i section)"
  shows "int (length (Content c)) \<le> chunkSize \<or> Content c \<in> set (Fields section)"
proof (cases "int (length section) \<le> chunkSize")
  case True
  with assms have "Content c = section" by (simp add: sectionChunks_def)
  with True show ?thesis by simp
next
  case False
  with assms have "c \<in> set (map (\<lambda>(j, subChunk).
             \<lparr>ID = doc_Path doc @ ''_chunk_'' @ showNat i @ ''_'' @ showNat j,
              DocPath = doc_Path doc, Title = doc_Title doc, Content = subChunk,
              Keywords = extractKeywords subChunk, Score = 0\<rparr>)
           (enumerate 0 (splitIntoChunks section chunkSize)))"
    by (simp add: sectionChunks_def)
  then obtain j subChunk where "(j, subChunk) \<in> set (enumerate 0 (splitIntoChunks section chunkSize))"
    and "Content c = subChunk" by fastforce
  then have "Content c \<in> set (splitIntoChunks section chunkSize)"
    using nth_mem by (fastforce simp: in_set_enumerate_eq)
  from splitIntoChunks_bound[OF this] show ?thesis .
qed

lemma chunkDocument_bound:
  assumes "\<forall>c\<in>set (chunks ds). int (length (Content c)) \<le> chunkSize \<or> wholeWordOf (documents ds) (Content c)"
    and "doc \<in> set (documents ds)"
    and "c \<in> set (chunks (chunkDocument ds doc chunkSize))"
  shows "int (length (Content c)) \<le> chunkSize
           \<or> wholeWordOf (documents (chunkDocument ds doc chunkSize)) (Content c)"
proof -
  have d: "documents (chunkDocument ds doc chunkSize) = documents ds"
    by (simp add: chunkDocument_def)
  from assms(3) consider "c \<in> set (chunks ds)"
    | i sec where "sec \<in> set (splitBySections (cleanContent (doc_Content doc)))"
        "c \<in> set (sectionChunks doc chunkSize i sec)"
    by (auto simp: chunkDocument_def in_set_enumerate_eq) (metis nth_mem)
  then show ?thesis
  proof cases
    case 1
    with assms(1) d show ?thesis by auto
  next
    case 2
    from sectionChunks_bound[OF 2(2)] 2(1) assms(2) d show ?thesis
      unfolding wholeWordOf_def by auto
  qed
qed

lemma wholeWordOf_mono: "wholeWordOf docs c \<Longrightarrow> wholeWordOf (docs @ docs2) c"
  by (auto simp: wholeWordOf_def)

lemma loadFile_bound:
  assumes "\<forall>c\<in>set (chunks ds). int (length (Content c)) \<le> chunkSize \<or> wholeWordOf (documents ds) (Content c)"
  shows "\<forall>c\<in>set (chunks (loadFile chunkSize file ds)).
            int (length (Content c)) \<le> chunkSize
              \<or> wholeWordOf (documents (loadFile chunkSize file ds)) (Content c)"
proof (cases "\<not> HasSuffix (ToLower (Name file)) ''.md''")
  case True
  with assms show ?thesis by (simp add: loadFile_def)
next
  case md: False
  show ?thesis
  proof (cases "Data file")
    case None
    with assms md show ?thesis by (simp add: loadFile_def)
  next
    case (Some content)
    define doc where "doc = \<lparr>doc_Path = Name file, doc_Title = extractTitle content,
        doc_Content = content, doc_Metadata = [''size'' \<mapsto> showNat (length content)]\<rparr>"
    define ds1 where "ds1 = ds\<lparr>documents := documents ds @ [doc]\<rparr>"
    have lf: "loadFile chunkSize file ds = chunkDocument ds1 doc chunkSize"
      using md Some by (simp add: loadFile_def doc_def ds1_def Let_def)
    have a: "\<forall>c\<in>set (chunks ds1). int (length (Content c)) \<le> chunkSize \<or> wholeWordOf (documents ds1) (Content c)"
      using assms wholeWordOf_mono by (auto simp: ds1_def)
    have b: "doc \<in> set (documents ds1)" by (simp add: ds1_def)
    show ?thesis unfolding lf using chunkDocument_bound[OF a b] by blast
  qed
qed

lemma fold_loadFile_bound:
  assumes "\<forall>c\<in>set (chunks ds). int (length (Content c)) \<le> chunkSize \<or> wholeWordOf (documents ds) (Content c)"
  shows "\<forall>c\<in>set (chunks (fold (loadFile chunkSize) files ds)).
            int (length (Content c)) \<le> chunkSize
              \<or> wholeWordOf (documents (fold (loadFile chunkSize) files ds)) (Content c)"
  using assms
proof (induction files arbitrary: ds)
  case Nil
  then show ?case by simp
next
  case (Cons f files)
  from Cons.IH[OF loadFile_bound[OF Cons.prems]] show ?case by simp
qed

lemma buildKeywordIndex_keeps:
  "chunks (buildKeywordIndex ds) = chunks ds" "documents (buildKeywordIndex ds) = documents ds"
  by (simp_all add: buildKeywordIndex_def)

text \<open>
  Claim C4. After an ingestion with chunk size \<open>chunkSize\<close>, every chunk of the index has a
  content of at most \<open>chunkSize\<close> bytes, or else its content is longer and is one whole
  white-space-delimited word of a section of an ingested document.
\<close>

theorem chunk_size_bound:
  assumes "LoadFromZip ds (Some files) chunkSize = Inr ds'" and "c \<in> set (chunks ds')"
  shows "int (length (Content c)) \<le> chunkSize
         \<or> (int (length (Content c)) > chunkSize
            \<and> (\<exists>doc\<in>set (documents ds').
                 \<exists>section\<in>set (splitBySections (cleanContent (doc_Content doc))).
                   Content c \<in> set (Fields section)))"
proof -
  let ?ds0 = "ds\<lparr>documents := [], chunks := [], keywordIndex := Map.empty\<rparr>"
  have ds': "ds' = buildKeywordIndex (fold (loadFile chunkSize) files ?ds0)"
    using assms(1) by (simp add: LoadFromZip_def)
  have "\<forall>c\<in>set (chunks ?ds0). int (length (Content c)) \<le> chunkSize \<or> wholeWordOf (documents ?ds0) (Content c)"
    by simp
  from fold_loadFile_bound[OF this, of files] assms(2)
  have "int (length (Content c)) \<le> chunkSize \<or> wholeWordOf (documents ds') (Content c)"
    unfolding ds' buildKeywordIndex_keeps by blast
  then show ?thesis unfolding wholeWordOf_def by (cases "int (length (Content c)) \<le> chunkSize") auto
qed

theorem chunk_size_bound_witness:
  "\<exists>ds'. LoadFromZip NewDocumentService (Some exampleLongWord) 3 = Inr ds'
     \<and> \<lparr>ID = ''a.md_chunk_0_0'', DocPath = ''a.md'', Title = ''Untitled'',
          Content = ''aaaaaaa'', Keywords = [''aaaaaaa''], Score = 0\<rparr> \<in> set (chunks ds')
     \<and> map Content (chunks ds') = [''aaaaaaa'', ''bb'']
     \<and> (\<exists>doc\<in>set (documents ds').
            \<exists>section\<in>set (splitBySections (cleanContent (doc_Content doc))).
              ''aaaaaaa'' \<in> set (Fields section))"
proof -
  let ?c = "\<lparr>ID = ''a.md_chunk_0_0'', DocPath = ''a.md'', Title = ''Untitled'',
          Content = ''aaaaaaa'', Keywords = [''aaaaaaa''], Score = 0\<rparr>"
  let ?ds = "buildKeywordIndex (fold (loadFile 3) exampleLongWord
      (NewDocumentService\<lparr>documents := [], chunks := [], keywordIndex := Map.empty\<rparr>))"
  have h1: "LoadFromZip NewDocumentService (Some exampleLongWord) 3 = Inr ?ds"
    by (simp add: LoadFromZip_def)
  have h2: "?c \<in> set (chunks ?ds)" by code_simp
  have h3: "map Content (chunks ?ds) = [''aaaaaaa'', ''bb'']" by code_simp
  from chunk_size_bound[OF h1 h2]
  have h4: "\<exists>doc\<in>set (documents ?ds).
            \<exists>section\<in>set (splitBySections (cleanContent (doc_Content doc))).
              ''aaaaaaa'' \<in> set (Fields section)" by simp
  show ?thesis by (rule exI[of _ ?ds]) (intro conjI h1 h2 h3 h4)
qed

section \<open>Properties of the inverted index\<close>

lemma fold_addPosting:
  "distinct kws \<Longrightarrow>
   fold (addPosting i) kws m kw =
     (if kw \<in> set kws then Some ((case m kw of None \<Rightarrow> [] | Some l \<Rightarrow> l) @ [i]) else m kw)"
proof (induction kws arbitrary: m)
  case Nil
  show ?case by simp
next
  case (Cons k kws)
  then show ?case by (auto simp: addPosting_def)
qed

lemma postings_Cons:
  "postings n (c # cs) kw =
     (if kw \<in> set (Keywords c) then n # postings (Suc n) cs kw else postings (Suc n) cs kw)"
  by (simp add: postings_def)

lemma fold_chunks_index:
  assumes "\<forall>c\<in>set cs. distinct (Keywords c)"
  shows "fold (\<lambda>(i, chunk) m. fold (addPosting i) (Keywords chunk) m) (enumerate n cs) m kw =
     (if postings n cs kw = [] then m kw
      else Some ((case m kw of None \<Rightarrow> [] | Some l \<Rightarrow> l) @ postings n cs kw))"
  using assms
proof (induction cs arbitrary: n m)
  case Nil
  show ?case by (simp add: postings_def)
next
  case (Cons c cs)
  have d: "distinct (Keywords c)" and r: "\<forall>c\<in>set cs. distinct (Keywords c)"
    using Cons.prems by simp_all
  show ?case
    by (simp add: Cons.IH[OF r] fold_addPosting[OF d] postings_Cons)
qed

lemma set_postings:
  "set (postings n cs kw) = {i. n \<le> i \<and> i < n + length cs \<and> kw \<in> set (Keywords (cs ! (i - n)))}"
proof -
  have "i \<in> set (postings n cs kw)"
    if "n \<le> i" "i < n + length cs" "kw \<in> set (Keywords (cs ! (i - n)))" for i
  proof -
    have "(i, cs ! (i - n)) \<in> set (enumerate n cs)"
      using that by (simp add: in_set_enumerate_eq add.commute)
    with that(3) have "(i, cs ! (i - n)) \<in> set (filter (\<lambda>(i, c). kw \<in> set (Keywords c)) (enumerate n cs))"
      by simp
    then have "fst (i, cs ! (i - n)) \<in> set (postings n cs kw)"
      unfolding postings_def set_map by (rule imageI)
    then show ?thesis by simp
  qed
  moreover have "n \<le> i \<and> i < n + length cs \<and> kw \<in> set (Keywords (cs ! (i - n)))"
    if "i \<in> set (postings n cs kw)" for i
    using that by (auto simp: postings_def in_set_enumerate_eq)
  ultimately show ?thesis by blast
qed

lemma distinct_postings: "distinct (postings n cs kw)"
  unfolding postings_def by (rule distinct_map_filter) (simp add: enumerate_eq_zip)

lemma length_postings: "length (postings n cs kw) \<le> length cs"
proof -
  have "length (postings n cs kw) \<le> length (enumerate n cs)"
    unfolding postings_def by (simp del: length_enumerate)
  then show ?thesis by simp
qed

lemma keywordLoop_distinct:
  "distinct kws \<Longrightarrow> (\<forall>w. seen w \<longleftrightarrow> w \<in> set kws) \<Longrightarrow> distinct (keywordLoop ws kws seen)"
proof (induction ws arbitrary: kws seen)
  case Nil
  then show ?case by simp
next
  case (Cons w ws)
  show ?case
  proof (cases "w \<notin> set stopWords \<and> \<not> seen w \<and> length w > 3")
    case True
    have "distinct (keywordLoop ws (kws @ [w]) (seen(w := True)))"
      by (rule Cons.IH) (use Cons.prems True in auto)
    with True show ?thesis by simp
  next
    case False
    have "distinct (keywordLoop ws kws seen)"
      by (rule Cons.IH) (use Cons.prems in auto)
    with False show ?thesis by auto
  qed
qed

lemma distinct_extractKeywords: "distinct (extractKeywords text)"
  unfolding extractKeywords_def by (rule keywordLoop_distinct) simp_all

lemma sectionChunks_keywords:
  "c \<in> set (sectionChunks doc chunkSize i sec) \<Longrightarrow> Keywords c = extractKeywords (Content c)"
  by (auto simp: sectionChunks_def split: if_splits)

lemma chunkDocument_keywords:
  assumes "\<forall>c\<in>set (chunks ds). Keywords c = extractKeywords (Content c)"
  shows "\<forall>c\<in>set (chunks (chunkDocument ds doc chunkSize)). Keywords c = extractKeywords (Content c)"
  using assms sectionChunks_keywords by (auto simp: chunkDocument_def)

lemma loadFile_keywords:
  assumes "\<forall>c\<in>set (chunks ds). Keywords c = extractKeywords (Content c)"
  shows "\<forall>c\<in>set (chunks (loadFile chunkSize f ds)). Keywords c = extractKeywords (Content c)"
proof -
  have "\<forall>c\<in>set (chunks (chunkDocument (ds\<lparr>documents := docs\<rparr>) doc chunkSize)).
          Keywords c = extractKeywords (Content c)" for docs doc
    by (rule chunkDocument_keywords) (use assms in simp)
  then show ?thesis using assms
    by (simp add: loadFile_def Let_def split: option.splits)
qed

lemma fold_loadFile_keywords:
  assumes "\<forall>c\<in>set (chunks ds). Keywords c = extractKeywords (Content c)"
  shows "\<forall>c\<in>set (chunks (fold (loadFile chunkSize) files ds)). Keywords c = extractKeywords (Content c)"
  using assms
proof (induction files arbitrary: ds)
  case Nil
  then show ?case by simp
next
  case (Cons f files)
  from Cons.IH[OF loadFile_keywords[OF Cons.prems]] show ?case by simp
qed

lemma LoadFromZip_wellFormed:
  assumes "LoadFromZip ds0 archive chunkSize = Inr ds"
  shows "wellFormed ds"
proof -
  from assms obtain files where a: "archive = Some files"
    by (cases archive) (simp_all add: LoadFromZip_def)
  let ?d = "fold (loadFile chunkSize) files (ds0\<lparr>documents := [], chunks := [], keywordIndex := Map.empty\<rparr>)"
  have ds: "ds = buildKeywordIndex ?d" using assms a by (simp add: LoadFromZip_def)
  have k: "\<forall>c\<in>set (chunks ?d). Keywords c = extractKeywords (Content c)"
    by (rule fold_loadFile_keywords) simp
  then have dk: "\<forall>c\<in>set (chunks ?d). distinct (Keywords c)"
    using distinct_extractKeywords by simp
  have "keywordIndex ds kw =
            (if postings 0 (chunks ds) kw = [] then None else Some (postings 0 (chunks ds) kw))" for kw
    unfolding ds by (simp add: buildKeywordIndex_def fold_chunks_index[OF dk])
  with k show ?thesis unfolding wellFormed_def ds by (simp add: buildKeywordIndex_def)
qed

section \<open>Properties of the scores\<close>

lemma wellFormed_posting:
  assumes "wellFormed ds" and "keywordIndex ds kw = Some l"
  shows "distinct l"
    and "set l = {i. i < length (chunks ds) \<and> kw \<in> set (Keywords (chunks ds ! i))}"
    and "l \<noteq> []" and "length l \<le> length (chunks ds)"
proof -
  from assms have l: "l = postings 0 (chunks ds) kw" and ne: "postings 0 (chunks ds) kw \<noteq> []"
    unfolding wellFormed_def by (metis option.distinct(1) option.inject)+
  show "distinct l" unfolding l by (rule distinct_postings)
  show "set l = {i. i < length (chunks ds) \<and> kw \<in> set (Keywords (chunks ds ! i))}"
    unfolding l set_postings by simp
  show "l \<noteq> []" using l ne by simp
  show "length l \<le> length (chunks ds)" unfolding l by (rule length_postings)
qed

lemma fold_addWeight:
  "distinct idxs \<Longrightarrow>
   fold (addWeight w) idxs m i =
     (if i \<in> set idxs then Some ((case m i of None \<Rightarrow> 0 | Some s \<Rightarrow> s) + w) else m i)"
proof (induction idxs arbitrary: m)
  case Nil
  show ?case by simp
next
  case (Cons k idxs)
  then show ?case by (auto simp: addWeight_def)
qed

lemma scoreWord_at:
  assumes "wellFormed ds"
  shows "scoreWord ds kw m i =
     (if matches ds i kw then Some ((case m i of None \<Rightarrow> 0 | Some s \<Rightarrow> s) + wordWeight ds kw)
      else m i)"
proof (cases "keywordIndex ds kw")
  case None
  then show ?thesis by (simp add: scoreWord_def matches_def)
next
  case (Some l)
  from wellFormed_posting(1)[OF assms Some] have "distinct l" .
  then show ?thesis using Some
    by (simp add: scoreWord_def matches_def wordWeight_def fold_addWeight)
qed

lemma fold_scoreWord_at:
  assumes "wellFormed ds"
  shows "fold (scoreWord ds) qws m i =
     (if filter (matches ds i) qws = [] then m i
      else Some ((case m i of None \<Rightarrow> 0 | Some s \<Rightarrow> s)
                  + sum_list (map (wordWeight ds) (filter (matches ds i) qws))))"
proof (induction qws arbitrary: m)
  case Nil
  show ?case by simp
next
  case (Cons q qws)
  have "fold (scoreWord ds) (q # qws) m i = fold (scoreWord ds) qws (scoreWord ds q m) i"
    by simp
  also have "\<dots> = (if filter (matches ds i) qws = [] then scoreWord ds q m i
      else Some ((case scoreWord ds q m i of None \<Rightarrow> 0 | Some s \<Rightarrow> s)
                  + sum_list (map (wordWeight ds) (filter (matches ds i) qws))))"
    by (rule Cons.IH)
  also have "\<dots> = (if filter (matches ds i) (q # qws) = [] then m i
      else Some ((case m i of None \<Rightarrow> 0 | Some s \<Rightarrow> s)
                  + sum_list (map (wordWeight ds) (filter (matches ds i) (q # qws)))))"
    unfolding scoreWord_at[OF assms] by (simp add: add.assoc)
  finally show ?case .
qed

lemma matchedKeywords_filter:
  "matchedKeywords ds qws i = set (filter (matches ds i) qws)"
  by (auto simp: matchedKeywords_def matches_def)

lemma chunkScores_at:
  assumes "wellFormed ds" and "distinct qws"
  shows "chunkScores ds qws i =
     (if matchedKeywords ds qws i = {} then None
      else Some (\<Sum>kw\<in>matchedKeywords ds qws i. wordWeight ds kw))"
proof -
  have "sum_list (map (wordWeight ds) (filter (matches ds i) qws))
          = (\<Sum>kw\<in>set (filter (matches ds i) qws). wordWeight ds kw)"
    by (rule sum_list_distinct_conv_sum_set) (use assms(2) in simp)
  moreover have "(filter (matches ds i) qws = []) = (set (filter (matches ds i) qws) = {})"
    by (auto simp: filter_empty_conv)
  ultimately show ?thesis
    unfolding chunkScores_def fold_scoreWord_at[OF assms(1)] matchedKeywords_filter
    by (simp del: set_filter filter_empty_conv set_empty)
qed

lemma matchedKeywords_chunk:
  assumes "wellFormed ds"
  shows "matchedKeywords ds qws i =
     {kw \<in> set qws. i < length (chunks ds) \<and> kw \<in> set (Keywords (chunks ds ! i))}"
proof -
  have "(\<exists>l. keywordIndex ds kw = Some l \<and> i \<in> set l)
        \<longleftrightarrow> (i < length (chunks ds) \<and> kw \<in> set (Keywords (chunks ds ! i)))" for kw
  proof
    assume "\<exists>l. keywordIndex ds kw = Some l \<and> i \<in> set l"
    then obtain l where l: "keywordIndex ds kw = Some l" "i \<in> set l" by blast
    from wellFormed_posting(2)[OF assms l(1)] l(2)
    show "i < length (chunks ds) \<and> kw \<in> set (Keywords (chunks ds ! i))" by simp
  next
    assume a: "i < length (chunks ds) \<and> kw \<in> set (Keywords (chunks ds ! i))"
    then have "i \<in> set (postings 0 (chunks ds) kw)" unfolding set_postings by simp
    moreover from this have "postings 0 (chunks ds) kw \<noteq> []" by auto
    ultimately show "\<exists>l. keywordIndex ds kw = Some l \<and> i \<in> set l"
      using assms unfolding wellFormed_def by simp
  qed
  then show ?thesis unfolding matchedKeywords_def by simp
qed

lemma weight_ge_1:
  assumes "1 \<le> n" and "n \<le> t"
  shows "1 \<le> weight t n"
proof -
  have "1 \<le> real t / real n" using assms by simp
  then have "0 \<le> ln (real t / real n)" by simp
  then show ?thesis by (simp add: weight_def)
qed

lemma wordWeight_ge_1:
  assumes "wellFormed ds" and "kw \<in> matchedKeywords ds qws i"
  shows "1 \<le> wordWeight ds kw"
proof -
  from assms(2) obtain l where l: "keywordIndex ds kw = Some l"
    unfolding matchedKeywords_def by blast
  from wellFormed_posting(3,4)[OF assms(1) l] have "1 \<le> length l" "length l \<le> length (chunks ds)"
    by (simp_all add: Suc_leI)
  then show ?thesis unfolding wordWeight_def l by (simp add: weight_ge_1)
qed

lemma accumulatedScore_mono:
  assumes "wellFormed ds" and "distinct qws"
    and "matchedKeywords ds qws b \<subseteq> matchedKeywords ds qws a"
  shows "accumulatedScore ds qws b \<le> accumulatedScore ds qws a"
proof -
  have fin: "finite (matchedKeywords ds qws a)" unfolding matchedKeywords_def by simp
  have pos: "0 \<le> wordWeight ds kw" if "kw \<in> matchedKeywords ds qws a" for kw
    using wordWeight_ge_1[OF assms(1) that] by simp
  have s: "(\<Sum>kw\<in>matchedKeywords ds qws b. wordWeight ds kw)
            \<le> (\<Sum>kw\<in>matchedKeywords ds qws a. wordWeight ds kw)"
    by (rule sum_mono2[OF fin assms(3)]) (use pos in simp)
  have nn: "0 \<le> (\<Sum>kw\<in>matchedKeywords ds qws a. wordWeight ds kw)"
    by (rule sum_nonneg) (use pos in simp)
  show ?thesis
    unfolding accumulatedScore_def chunkScores_at[OF assms(1,2)]
    using s nn assms(3) by auto
qed

lemma score_ge_1:
  assumes "wellFormed ds" and "distinct qws" and "chunkScores ds qws i = Some s"
  shows "1 \<le> s" and "matchedKeywords ds qws i \<noteq> {}"
proof -
  from assms(3) show ne: "matchedKeywords ds qws i \<noteq> {}"
    unfolding chunkScores_at[OF assms(1,2)] by (auto split: if_splits)
  then obtain kw where kw: "kw \<in> matchedKeywords ds qws i" by blast
  have fin: "finite (matchedKeywords ds qws i)" unfolding matchedKeywords_def by simp
  from assms(3) ne have s: "s = (\<Sum>kw\<in>matchedKeywords ds qws i. wordWeight ds kw)"
    unfolding chunkScores_at[OF assms(1,2)] by simp
  have "wordWeight ds kw \<le> (\<Sum>kw\<in>matchedKeywords ds qws i. wordWeight ds kw)"
    by (rule member_le_sum[OF kw _ fin]) (use wordWeight_ge_1[OF assms(1)] in force)
  with wordWeight_ge_1[OF assms(1) kw] show "1 \<le> s" unfolding s by simp
qed

section \<open>Properties of the search\<close>

lemma collectScored_mem:
  "(c, s) \<in> set (collectScored ds m order) \<longleftrightarrow>
     (\<exists>i\<in>set order. m i = Some s \<and> i < length (chunks ds) \<and> c = (chunks ds ! i)\<lparr>Score := s\<rparr>)"
proof
  assume "(c, s) \<in> set (collectScored ds m order)"
  then show "\<exists>i\<in>set order. m i = Some s \<and> i < length (chunks ds) \<and> c = (chunks ds ! i)\<lparr>Score := s\<rparr>"
    by (auto simp: collectScored_def split: option.splits if_splits)
next
  assume "\<exists>i\<in>set order. m i = Some s \<and> i < length (chunks ds) \<and> c = (chunks ds ! i)\<lparr>Score := s\<rparr>"
  then obtain i where i: "i \<in> set order" "m i = Some s" "i < length (chunks ds)"
    "c = (chunks ds ! i)\<lparr>Score := s\<rparr>" by blast
  then have "(c, s) \<in> set (case m i of None \<Rightarrow> []
        | Some score \<Rightarrow> if i < length (chunks ds)
            then [((chunks ds ! i)\<lparr>Score := score\<rparr>, score)] else [])" by simp
  with i(1) show "(c, s) \<in> set (collectScored ds m order)"
    unfolding collectScored_def set_concat set_map by blast
qed

lemma collectScored_Score:
  "p \<in> set (collectScored ds m order) \<Longrightarrow> Score (fst p) = snd p"
  using collectScored_mem[of "fst p" "snd p" ds m order] by auto

lemma sortSlice_set:
  "sortSliceSpec sortSlice lt \<Longrightarrow> set (sortSlice lt xs) = set xs"
  unfolding sortSliceSpec_def by (metis set_mset_mset)

lemma sortSlice_length:
  "sortSliceSpec sortSlice lt \<Longrightarrow> length (sortSlice lt xs) = length xs"
  unfolding sortSliceSpec_def by (metis size_mset)

lemma sortSlice_sorted:
  "sortSliceSpec sortSlice scoreLess \<Longrightarrow>
     sorted_wrt (\<lambda>a b. snd b \<le> snd a) (sortSlice scoreLess xs)"
proof -
  assume "sortSliceSpec sortSlice scoreLess"
  then have "sorted_wrt (\<lambda>a b. \<not> scoreLess b a) (sortSlice scoreLess xs)"
    unfolding sortSliceSpec_def by blast
  moreover have "(\<lambda>a b :: Chunk \<times> real. \<not> scoreLess b a) = (\<lambda>a b. snd b \<le> snd a)"
    by (auto simp: scoreLess_def fun_eq_iff)
  ultimately show ?thesis by simp
qed

lemma chunkScores_Nil: "chunkScores ds [] = Map.empty"
  by (simp add: chunkScores_def)

lemma chunkScores_no_chunks:
  "chunks ds = [] \<Longrightarrow> collectScored ds m order = []"
  by (induction order) (auto simp: collectScored_def split: option.splits)

lemma collectScored_empty: "collectScored ds Map.empty order = []"
  by (induction order) (auto simp: collectScored_def)

lemma sortSlice_Nil: "sortSliceSpec sortSlice lt \<Longrightarrow> sortSlice lt [] = []"
  using sortSlice_length[of sortSlice lt "[]"] by simp

lemma Search_pairs:
  assumes "sortSliceSpec sortSlice scoreLess"
  shows "SearchRelevantChunks sortSlice order ds query maxChunks =
     map fst (take (nat maxChunks) (searchPairs sortSlice order ds (extractKeywords (ToLower query))))"
proof (cases "chunks ds = []")
  case True
  then show ?thesis
    by (simp add: SearchRelevantChunks_def searchPairs_def chunkScores_no_chunks
        sortSlice_Nil[OF assms])
next
  case False
  show ?thesis
  proof (cases "extractKeywords (ToLower query) = []")
    case True
    then show ?thesis using False
      by (simp add: SearchRelevantChunks_def searchPairs_def chunkScores_Nil collectScored_empty
          sortSlice_Nil[OF assms])
  next
    case ne: False
    with False show ?thesis
      by (simp add: SearchRelevantChunks_def searchPairs_def Let_def)
  qed
qed

lemma searchPairs_mem:
  assumes "sortSliceSpec sortSlice scoreLess"
  shows "(c, s) \<in> set (searchPairs sortSlice order ds qws) \<longleftrightarrow>
     (\<exists>i\<in>set order. chunkScores ds qws i = Some s \<and> i < length (chunks ds)
        \<and> c = (chunks ds ! i)\<lparr>Score := s\<rparr>)"
  unfolding searchPairs_def sortSlice_set[OF assms] collectScored_mem ..

lemma searchPairs_Score:
  assumes "sortSliceSpec sortSlice scoreLess" and "p \<in> set (searchPairs sortSlice order ds qws)"
  shows "Score (fst p) = snd p"
  using assms(2) unfolding searchPairs_def sortSlice_set[OF assms(1)]
  by (rule collectScored_Score)

lemma map_Score_pairs:
  assumes "\<forall>p\<in>set ps. Score (fst p) = snd p"
  shows "map Score (map fst ps) = map snd ps"
  using assms by (induction ps) auto



lemma Search_mem:
  assumes "sortSliceSpec sortSlice scoreLess"
    and "c \<in> set (SearchRelevantChunks sortSlice order ds query maxChunks)"
  shows "\<exists>i\<in>set order. i < length (chunks ds)
           \<and> chunkScores ds (extractKeywords (ToLower query)) i = Some (Score c)
           \<and> c = (chunks ds ! i)\<lparr>Score := Score c\<rparr>"
proof -
  let ?ps = "searchPairs sortSlice order ds (extractKeywords (ToLower query))"
  from assms(2) obtain p where p: "p \<in> set (take (nat maxChunks) ?ps)" "c = fst p"
    unfolding Search_pairs[OF assms(1)] by auto
  then have m: "(c, snd p) \<in> set ?ps" by (metis in_set_takeD prod.collapse)
  from searchPairs_Score[OF assms(1), of "(c, snd p)"] m have "Score c = snd p" by simp
  with m show ?thesis unfolding searchPairs_mem[OF assms(1)] by auto
qed

lemma insertLast_mset: "mset (insertLast lt x p) = add_mset x (mset p)"
  by (induction p) auto

lemma foldl_insertLast_mset:
  "mset (foldl (\<lambda>p x. insertLast lt x p) p xs) = mset p + mset xs"
  by (induction xs arbitrary: p) (auto simp: insertLast_mset)

lemma insertLast_set: "set (insertLast lt x p) = insert x (set p)"
  using insertLast_mset[of lt x p] by (metis set_mset_add_mset_insert set_mset_mset)

lemma insertLast_sorted:
  "sorted_wrt (\<lambda>a b. snd a \<le> snd b) p \<Longrightarrow>
   sorted_wrt (\<lambda>a b. snd a \<le> snd b) (insertLast scoreLess x p)"
proof (induction p)
  case Nil
  show ?case by simp
next
  case (Cons y ys)
  then show ?case by (auto simp: insertLast_set scoreLess_def)
qed

lemma foldl_insertLast_sorted:
  "sorted_wrt (\<lambda>a b. snd a \<le> snd b) p \<Longrightarrow>
   sorted_wrt (\<lambda>a b. snd a \<le> snd b) (foldl (\<lambda>p x. insertLast scoreLess x p) p xs)"
  by (induction xs arbitrary: p) (auto simp: insertLast_sorted)

lemma insertionSort_spec: "sortSliceSpec insertionSort scoreLess"
proof -
  have "mset (insertionSort scoreLess xs) = mset xs" for xs
    by (simp add: insertionSort_def foldl_insertLast_mset)
  moreover have "sorted_wrt (\<lambda>a b. \<not> scoreLess b a) (insertionSort scoreLess xs)" for xs
  proof -
    have "sorted_wrt (\<lambda>a b. snd a \<le> snd b) (foldl (\<lambda>p x. insertLast scoreLess x p) [] xs)"
      by (rule foldl_insertLast_sorted) simp
    then have "sorted_wrt (\<lambda>a b. snd b \<le> snd a) (insertionSort scoreLess xs)"
      by (simp add: insertionSort_def sorted_wrt_rev)
    moreover have "(\<lambda>a b :: Chunk \<times> real. \<not> scoreLess b a) = (\<lambda>a b. snd b \<le> snd a)"
      by (auto simp: scoreLess_def fun_eq_iff)
    ultimately show ?thesis by simp
  qed
  ultimately show ?thesis unfolding sortSliceSpec_def by blast
qed





text \<open>The scores of the result do not depend on the order of the visit.\<close>

lemma mset_concat_map:
  "mset (concat (map f xs)) = (\<Sum>x\<in>#mset xs. mset (f x))"
  by (induction xs) simp_all

lemma mset_collectScored:
  assumes "rangeOrder m o1" and "rangeOrder m o2"
  shows "mset (collectScored ds m o1) = mset (collectScored ds m o2)"
proof -
  from assms have "mset o1 = mset o2"
    unfolding rangeOrder_def using set_eq_iff_mset_eq_distinct by metis
  then show ?thesis unfolding collectScored_def mset_concat_map by simp
qed

lemma sorted_desc_unique:
  fixes xs ys :: "real list"
  assumes "sorted_wrt (\<lambda>a b. b \<le> a) xs" and "sorted_wrt (\<lambda>a b. b \<le> a) ys" and "mset xs = mset ys"
  shows "xs = ys"
proof -
  from assms(1,2) have "sorted (rev xs)" "sorted (rev ys)"
    by (simp_all add: sorted_wrt_rev)
  moreover from assms(3) have "mset (rev ys) = mset (rev xs)" by simp
  ultimately have "rev xs = rev ys"
    using properties_for_sort sorted_sort_id by metis
  then show ?thesis by simp
qed

lemma searchPairs_scores_eq:
  assumes "sortSliceSpec sortSlice scoreLess"
    and "rangeOrder (chunkScores ds qws) o1" and "rangeOrder (chunkScores ds qws) o2"
  shows "mset (searchPairs sortSlice o1 ds qws) = mset (searchPairs sortSlice o2 ds qws)"
    and "map snd (searchPairs sortSlice o1 ds qws) = map snd (searchPairs sortSlice o2 ds qws)"
proof -
  show m: "mset (searchPairs sortSlice o1 ds qws) = mset (searchPairs sortSlice o2 ds qws)"
    unfolding searchPairs_def using assms(1) mset_collectScored[OF assms(2,3)]
    by (simp add: sortSliceSpec_def)
  have s: "sorted_wrt (\<lambda>a b. b \<le> a) (map snd (searchPairs sortSlice od ds qws))" for od
    unfolding searchPairs_def sorted_wrt_map using sortSlice_sorted[OF assms(1)] .
  from m have "mset (map snd (searchPairs sortSlice o1 ds qws))
                = mset (map snd (searchPairs sortSlice o2 ds qws))" by simp
  from sorted_desc_unique[OF s s this]
  show "map snd (searchPairs sortSlice o1 ds qws) = map snd (searchPairs sortSlice o2 ds qws)" .
qed

lemma Search_scores_eq:
  assumes "sortSliceSpec sortSlice scoreLess"
    and "rangeOrder (chunkScores ds (extractKeywords (ToLower query))) o1"
    and "rangeOrder (chunkScores ds (extractKeywords (ToLower query))) o2"
  shows "map Score (SearchRelevantChunks sortSlice o1 ds query maxChunks)
           = map Score (SearchRelevantChunks sortSlice o2 ds query maxChunks)"
proof -
  let ?qws = "extractKeywords (ToLower query)"
  have "map Score (SearchRelevantChunks sortSlice od ds query maxChunks)
          = take (nat maxChunks) (map snd (searchPairs sortSlice od ds ?qws))" for od
  proof -
    have "\<forall>p\<in>set (take (nat maxChunks) (searchPairs sortSlice od ds ?qws)). Score (fst p) = snd p"
      using searchPairs_Score[OF assms(1)] by (meson in_set_takeD)
    from map_Score_pairs[OF this] show ?thesis
      unfolding Search_pairs[OF assms(1)] by (simp add: take_map)
  qed
  then show ?thesis using searchPairs_scores_eq(2)[OF assms] by simp
qed

lemma Search_eq_no_ties:
  assumes "sortSliceSpec sortSlice scoreLess"
    and "rangeOrder (chunkScores ds (extractKeywords (ToLower query))) o1"
    and "rangeOrder (chunkScores ds (extractKeywords (ToLower query))) o2"
    and noties: "\<And>i j s. i < length (chunks ds) \<Longrightarrow> j < length (chunks ds) \<Longrightarrow>
            chunkScores ds (extractKeywords (ToLower query)) i = Some s \<Longrightarrow>
            chunkScores ds (extractKeywords (ToLower query)) j = Some s \<Longrightarrow> i = j"
  shows "SearchRelevantChunks sortSlice o1 ds query maxChunks
           = SearchRelevantChunks sortSlice o2 ds query maxChunks"
proof -
  let ?qws = "extractKeywords (ToLower query)"
  let ?p1 = "searchPairs sortSlice o1 ds ?qws"
  let ?p2 = "searchPairs sortSlice o2 ds ?qws"
  note e = searchPairs_scores_eq[OF assms(1,2,3)]
  from e(2) have len: "length ?p1 = length ?p2" by (metis length_map)
  have "?p1 ! k = ?p2 ! k" if k: "k < length ?p1" for k
  proof -
    have "?p1 ! k \<in> set ?p1" using k by simp
    then obtain i where i: "chunkScores ds ?qws i = Some (snd (?p1 ! k))" "i < length (chunks ds)"
      "fst (?p1 ! k) = (chunks ds ! i)\<lparr>Score := snd (?p1 ! k)\<rparr>"
      using searchPairs_mem[OF assms(1), of "fst (?p1 ! k)" "snd (?p1 ! k)" o1 ds ?qws] by auto
    have "?p2 ! k \<in> set ?p2" using k len by simp
    then obtain j where j: "chunkScores ds ?qws j = Some (snd (?p2 ! k))" "j < length (chunks ds)"
      "fst (?p2 ! k) = (chunks ds ! j)\<lparr>Score := snd (?p2 ! k)\<rparr>"
      using searchPairs_mem[OF assms(1), of "fst (?p2 ! k)" "snd (?p2 ! k)" o2 ds ?qws] by auto
    have sn: "snd (?p1 ! k) = snd (?p2 ! k)"
      using e(2) k len by (metis nth_map)
    with noties[OF i(2) j(2) i(1)] j(1) have "i = j" by simp
    with i(3) j(3) sn show ?thesis by (simp add: prod_eq_iff)
  qed
  with len have "?p1 = ?p2" by (simp add: list_eq_iff_nth_eq)
  then show ?thesis unfolding Search_pairs[OF assms(1)] by simp
qed

section \<open>The example index\<close>

lemma ex_loaded: "LoadFromZip NewDocumentService (Some exampleArchive) 1000 = Inr exampleIndex"
  by (simp add: LoadFromZip_def exampleIndex_def)

lemma ex_chunks:
  "chunks exampleIndex =
     [\<lparr>ID = ''a.md_chunk_0'', DocPath = ''a.md'', Title = ''Untitled'',
       Content = ''refund policy'' @ [CHR 0x0A], Keywords = [''refund'', ''policy''], Score = 0\<rparr>,
      \<lparr>ID = ''b.md_chunk_0'', DocPath = ''b.md'', Title = ''Untitled'',
       Content = ''refund'' @ [CHR 0x0A], Keywords = [''refund''], Score = 0\<rparr>]"
  by code_simp

lemma ex_index:
  "keywordIndex exampleIndex ''refund'' = Some [0, 1]"
  "keywordIndex exampleIndex ''policy'' = Some [0]"
  "keywordIndex exampleIndex ''login'' = None"
  by code_simp+

lemma ex_query:
  "extractKeywords (ToLower ''refund'') = [''refund'']"
  "extractKeywords (ToLower ''policy'') = [''policy'']"
  "extractKeywords (ToLower ''Refund policy'') = [''refund'', ''policy'']"
  by code_simp+

lemma ex_scores_refund:
  "chunkScores exampleIndex [''refund''] = [0 \<mapsto> 1, 1 \<mapsto> 1]"
  by (simp add: chunkScores_def scoreWord_def ex_index ex_chunks addWeight_def weight_def)

lemma ex_scores_policy:
  "chunkScores exampleIndex [''policy''] = [0 \<mapsto> ln 2 + 1]"
  by (simp add: chunkScores_def scoreWord_def ex_index ex_chunks addWeight_def weight_def)

lemma ex_scores_both:
  "chunkScores exampleIndex [''refund'', ''policy''] = [0 \<mapsto> 2 + ln 2, 1 \<mapsto> 1]"
  by (simp add: chunkScores_def scoreWord_def ex_index ex_chunks addWeight_def weight_def
      fun_upd_twist)

lemma ex_search_refund_10:
  "SearchRelevantChunks insertionSort [1, 0] exampleIndex ''refund'' 5 =
     [\<lparr>ID = ''b.md_chunk_0'', DocPath = ''b.md'', Title = ''Untitled'',
       Content = ''refund'' @ [CHR 0x0A], Keywords = [''refund''], Score = 1\<rparr>,
      \<lparr>ID = ''a.md_chunk_0'', DocPath = ''a.md'', Title = ''Untitled'',
       Content = ''refund policy'' @ [CHR 0x0A], Keywords = [''refund'', ''policy''], Score = 1\<rparr>]"
  by (simp add: SearchRelevantChunks_def ex_query ex_scores_refund ex_chunks collectScored_def
      insertionSort_def scoreLess_def)

lemma ex_search_refund_01:
  "SearchRelevantChunks insertionSort [0, 1] exampleIndex ''refund'' 5 =
     [\<lparr>ID = ''a.md_chunk_0'', DocPath = ''a.md'', Title = ''Untitled'',
       Content = ''refund policy'' @ [CHR 0x0A], Keywords = [''refund'', ''policy''], Score = 1\<rparr>,
      \<lparr>ID = ''b.md_chunk_0'', DocPath = ''b.md'', Title = ''Untitled'',
       Content = ''refund'' @ [CHR 0x0A], Keywords = [''refund''], Score = 1\<rparr>]"
  by (simp add: SearchRelevantChunks_def ex_query ex_scores_refund ex_chunks collectScored_def
      insertionSort_def scoreLess_def)


lemma ex_search_policy:
  "SearchRelevantChunks insertionSort [0] exampleIndex ''policy'' 5 =
     [\<lparr>ID = ''a.md_chunk_0'', DocPath = ''a.md'', Title = ''Untitled'',
       Content = ''refund policy'' @ [CHR 0x0A], Keywords = [''refund'', ''policy''],
       Score = ln 2 + 1\<rparr>]"
  by (simp add: SearchRelevantChunks_def ex_query ex_scores_policy ex_chunks collectScored_def
      insertionSort_def scoreLess_def)

lemma ln2_pos: "0 < ln (2::real)" by simp



lemma ex_rangeOrder:
  "rangeOrder (chunkScores exampleIndex (extractKeywords (ToLower ''refund''))) [1, 0]"
  "rangeOrder (chunkScores exampleIndex (extractKeywords (ToLower ''refund''))) [0, 1]"
  "rangeOrder (chunkScores exampleIndex (extractKeywords (ToLower ''Refund policy''))) [1, 0]"
  "rangeOrder (chunkScores exampleIndex (extractKeywords (ToLower ''Refund policy''))) [0, 1]"
  "rangeOrder (chunkScores exampleIndex (extractKeywords (ToLower ''policy''))) [0]"
  by (auto simp: rangeOrder_def ex_query ex_scores_refund ex_scores_both ex_scores_policy)

section \<open>The claims about scores and search\<close>

text \<open>
  Claim C3. In an index built by \<open>LoadFromZip\<close>, with scores as real numbers, the
  accumulated score of position \<open>i\<close> for a query is the sum, over the distinct query
  keywords that are in the inverted index with \<open>i\<close> on their posting list, of
  \<open>ln(totalChunks / postingListLength) + 1\<close>; a position on no such list has no score.
  These keywords are the query keywords among the keywords of the chunk at \<open>i\<close>, each
  counted once however often the chunk holds the word. A query keyword that is not in
  the index leaves the scores as they are.
\<close>

theorem accumulated_score_formula:
  assumes "LoadFromZip ds0 (Some files) chunkSize = Inr ds"
  shows "chunkScores ds (extractKeywords (ToLower query)) i =
           (if matchedKeywords ds (extractKeywords (ToLower query)) i = {} then None
            else Some (\<Sum>kw\<in>matchedKeywords ds (extractKeywords (ToLower query)) i.
                        weight (length (chunks ds)) (length (the (keywordIndex ds kw)))))
       \<and> matchedKeywords ds (extractKeywords (ToLower query)) i =
           {kw \<in> set (extractKeywords (ToLower query)).
              i < length (chunks ds) \<and> kw \<in> set (extractKeywords (Content (chunks ds ! i)))}
       \<and> (keywordIndex ds kw = None \<longrightarrow> scoreWord ds kw m = m)"
proof -
  let ?qws = "extractKeywords (ToLower query)"
  from LoadFromZip_wellFormed[OF assms] have wf: "wellFormed ds" .
  have a: "chunkScores ds ?qws i =
           (if matchedKeywords ds ?qws i = {} then None
            else Some (\<Sum>kw\<in>matchedKeywords ds ?qws i.
                        weight (length (chunks ds)) (length (the (keywordIndex ds kw)))))"
    using chunkScores_at[OF wf distinct_extractKeywords, of "ToLower query" i]
    unfolding wordWeight_def .
  have "Keywords (chunks ds ! i) = extractKeywords (Content (chunks ds ! i))"
    if "i < length (chunks ds)"
    using wf that unfolding wellFormed_def by simp
  then have b: "matchedKeywords ds ?qws i =
           {kw \<in> set ?qws. i < length (chunks ds) \<and> kw \<in> set (extractKeywords (Content (chunks ds ! i)))}"
    unfolding matchedKeywords_chunk[OF wf] by auto
  have c: "keywordIndex ds kw = None \<longrightarrow> scoreWord ds kw m = m"
    by (simp add: scoreWord_def)
  from a b c show ?thesis by blast
qed

theorem accumulated_score_formula_witness:
  "LoadFromZip NewDocumentService (Some exampleArchive) 1000 = Inr exampleIndex
   \<and> matchedKeywords exampleIndex (extractKeywords (ToLower ''Refund policy'')) 0 = {''refund'', ''policy''}
   \<and> chunkScores exampleIndex (extractKeywords (ToLower ''Refund policy'')) 0 = Some (2 + ln 2)
   \<and> keywordIndex exampleIndex ''login'' = None
   \<and> scoreWord exampleIndex ''login'' [0 \<mapsto> 1] = [0 \<mapsto> 1]"
proof -
  note t = accumulated_score_formula[OF ex_loaded, of "''Refund policy''" 0 "''login''" "[0 \<mapsto> 1]"]
  note t1 = t[THEN conjunct1] and t2 = t[THEN conjunct2, THEN conjunct1]
    and t3 = t[THEN conjunct2, THEN conjunct2]
  have k0: "extractKeywords (Content (chunks exampleIndex ! 0)) = [''refund'', ''policy'']"
    unfolding ex_chunks by code_simp
  have "matchedKeywords exampleIndex [''refund'', ''policy''] 0
      = {kw \<in> set [''refund'', ''policy''].
           0 < length (chunks exampleIndex) \<and> kw \<in> set [''refund'', ''policy'']}"
    using t2 unfolding k0 ex_query .
  also have "\<dots> = {''refund'', ''policy''}" by (auto simp: ex_chunks)
  finally have m: "matchedKeywords exampleIndex (extractKeywords (ToLower ''Refund policy'')) 0
      = {''refund'', ''policy''}"
    unfolding ex_query .
  have ne: "{''refund'', ''policy''} \<noteq> ({} :: string set)" by simp
  have "chunkScores exampleIndex (extractKeywords (ToLower ''Refund policy'')) 0
      = Some (\<Sum>kw\<in>{''refund'', ''policy''}.
                weight (length (chunks exampleIndex)) (length (the (keywordIndex exampleIndex kw))))"
    using t1 unfolding m if_not_P[OF ne] .
  then have s: "chunkScores exampleIndex (extractKeywords (ToLower ''Refund policy'')) 0 = Some (2 + ln 2)"
    by (simp add: ex_index ex_chunks weight_def)
  from t3 ex_index(3) have "scoreWord exampleIndex ''login'' [0 \<mapsto> 1] = [0 \<mapsto> 1]" by blast
  with ex_loaded m s ex_index(3) show ?thesis by blast
qed

text \<open>
  Claim C8. In an index built by \<open>LoadFromZip\<close>, if the query keywords matching position
  \<open>b\<close> are among those matching position \<open>a\<close>, the accumulated score of \<open>b\<close> is at most
  that of \<open>a\<close>; every weight that enters the score of \<open>a\<close> is at least 1.
\<close>

theorem score_monotone_in_matched_keywords:
  assumes "LoadFromZip ds0 (Some files) chunkSize = Inr ds"
    and "matchedKeywords ds (extractKeywords (ToLower query)) b
           \<subseteq> matchedKeywords ds (extractKeywords (ToLower query)) a"
  shows "accumulatedScore ds (extractKeywords (ToLower query)) b
           \<le> accumulatedScore ds (extractKeywords (ToLower query)) a
       \<and> (\<forall>kw\<in>matchedKeywords ds (extractKeywords (ToLower query)) a.
             1 \<le> weight (length (chunks ds)) (length (the (keywordIndex ds kw))))"
proof -
  from LoadFromZip_wellFormed[OF assms(1)] have wf: "wellFormed ds" .
  have "accumulatedScore ds (extractKeywords (ToLower query)) b
           \<le> accumulatedScore ds (extractKeywords (ToLower query)) a"
    by (rule accumulatedScore_mono[OF wf distinct_extractKeywords assms(2)])
  moreover have "\<forall>kw\<in>matchedKeywords ds (extractKeywords (ToLower query)) a.
             1 \<le> weight (length (chunks ds)) (length (the (keywordIndex ds kw)))"
    using wordWeight_ge_1[OF wf] unfolding wordWeight_def by blast
  ultimately show ?thesis by blast
qed

theorem score_monotone_in_matched_keywords_witness:
  "LoadFromZip NewDocumentService (Some exampleArchive) 1000 = Inr exampleIndex
   \<and> matchedKeywords exampleIndex (extractKeywords (ToLower ''Refund policy'')) 1 = {''refund''}
   \<and> matchedKeywords exampleIndex (extractKeywords (ToLower ''Refund policy'')) 0 = {''refund'', ''policy''}
   \<and> matchedKeywords exampleIndex (extractKeywords (ToLower ''Refund policy'')) 1
        \<subseteq> matchedKeywords exampleIndex (extractKeywords (ToLower ''Refund policy'')) 0
   \<and> accumulatedScore exampleIndex (extractKeywords (ToLower ''Refund policy'')) 1 = 1
   \<and> accumulatedScore exampleIndex (extractKeywords (ToLower ''Refund policy'')) 0 = 2 + ln 2
   \<and> accumulatedScore exampleIndex (extractKeywords (ToLower ''Refund policy'')) 1
        \<le> accumulatedScore exampleIndex (extractKeywords (ToLower ''Refund policy'')) 0"
proof -
  let ?qws = "extractKeywords (ToLower ''Refund policy'')"
  have m1: "matchedKeywords exampleIndex ?qws 1 = {''refund''}"
    unfolding ex_query by (auto simp: matchedKeywords_def ex_index)
  have m0: "matchedKeywords exampleIndex ?qws 0 = {''refund'', ''policy''}"
    unfolding ex_query by (auto simp: matchedKeywords_def ex_index)
  have sub: "matchedKeywords exampleIndex ?qws 1 \<subseteq> matchedKeywords exampleIndex ?qws 0"
    unfolding m0 m1 by simp
  have a1: "accumulatedScore exampleIndex ?qws 1 = 1"
    unfolding ex_query by (simp add: accumulatedScore_def ex_scores_both)
  have a0: "accumulatedScore exampleIndex ?qws 0 = 2 + ln 2"
    unfolding ex_query by (simp add: accumulatedScore_def ex_scores_both)
  from score_monotone_in_matched_keywords[OF ex_loaded sub]
  have "accumulatedScore exampleIndex ?qws 1 \<le> accumulatedScore exampleIndex ?qws 0" by blast
  with ex_loaded m1 m0 sub a1 a0 show ?thesis by blast
qed

text \<open>
  Claim C10. In an index built by \<open>LoadFromZip\<close>, every chunk that
  \<open>SearchRelevantChunks\<close> returns is the chunk of a position of the index with the
  accumulated score of that position as its \<open>Score\<close>, the score is at least 1, and one of
  the query keywords is among the keywords of the chunk (the keywords of its content).
  So a chunk that matches no query keyword is never returned, however few chunks match.
\<close>

theorem search_returns_only_matching_chunks:
  assumes "LoadFromZip ds0 (Some files) chunkSize = Inr ds"
    and "sortSliceSpec sortSlice scoreLess"
    and "c \<in> set (SearchRelevantChunks sortSlice order ds query maxChunks)"
  shows "\<exists>i<length (chunks ds).
           c = (chunks ds ! i)\<lparr>Score := Score c\<rparr>
         \<and> Score c = accumulatedScore ds (extractKeywords (ToLower query)) i
         \<and> 1 \<le> Score c
         \<and> (\<exists>kw\<in>set (extractKeywords (ToLower query)).
               kw \<in> set (Keywords c) \<and> kw \<in> set (extractKeywords (Content c)))"
proof -
  let ?qws = "extractKeywords (ToLower query)"
  from LoadFromZip_wellFormed[OF assms(1)] have wf: "wellFormed ds" .
  from Search_mem[OF assms(2,3)] obtain i where i: "i < length (chunks ds)"
    "chunkScores ds ?qws i = Some (Score c)" "c = (chunks ds ! i)\<lparr>Score := Score c\<rparr>" by blast
  from score_ge_1[OF wf distinct_extractKeywords i(2)]
  have ge: "1 \<le> Score c" and ne: "matchedKeywords ds ?qws i \<noteq> {}" by simp_all
  from ne obtain kw where "kw \<in> matchedKeywords ds ?qws i" by blast
  then have kw: "kw \<in> set ?qws" "kw \<in> set (Keywords (chunks ds ! i))"
    unfolding matchedKeywords_chunk[OF wf] by simp_all
  have kc: "Keywords c = Keywords (chunks ds ! i)" "Content c = Content (chunks ds ! i)"
    by (subst i(3), simp)+
  have "Keywords (chunks ds ! i) = extractKeywords (Content (chunks ds ! i))"
    using wf i(1) unfolding wellFormed_def by simp
  with kw kc have "kw \<in> set (Keywords c) \<and> kw \<in> set (extractKeywords (Content c))" by simp
  moreover have "Score c = accumulatedScore ds ?qws i"
    by (simp add: accumulatedScore_def i(2))
  ultimately show ?thesis using i(1,3) ge kw(1) by blast
qed

theorem search_returns_only_matching_chunks_witness:
  "LoadFromZip NewDocumentService (Some exampleArchive) 1000 = Inr exampleIndex
   \<and> sortSliceSpec insertionSort scoreLess
   \<and> SearchRelevantChunks insertionSort [0] exampleIndex ''policy'' 5 =
       [\<lparr>ID = ''a.md_chunk_0'', DocPath = ''a.md'', Title = ''Untitled'',
         Content = ''refund policy'' @ [CHR 0x0A], Keywords = [''refund'', ''policy''],
         Score = ln 2 + 1\<rparr>]
   \<and> (\<exists>i<length (chunks exampleIndex).
         1 \<le> Score \<lparr>ID = ''a.md_chunk_0'', DocPath = ''a.md'', Title = ''Untitled'',
                 Content = ''refund policy'' @ [CHR 0x0A], Keywords = [''refund'', ''policy''],
                 Score = ln 2 + 1\<rparr>
       \<and> (\<exists>kw\<in>set (extractKeywords (ToLower ''policy'')).
             kw \<in> set (Keywords \<lparr>ID = ''a.md_chunk_0'', DocPath = ''a.md'', Title = ''Untitled'',
                 Content = ''refund policy'' @ [CHR 0x0A], Keywords = [''refund'', ''policy''],
                 Score = ln 2 + 1\<rparr>)))"
proof -
  let ?c = "\<lparr>ID = ''a.md_chunk_0'', DocPath = ''a.md'', Title = ''Untitled'',
         Content = ''refund policy'' @ [CHR 0x0A], Keywords = [''refund'', ''policy''],
         Score = ln 2 + 1\<rparr>"
  have h3: "?c \<in> set (SearchRelevantChunks insertionSort [0] exampleIndex ''policy'' 5)"
    unfolding ex_search_policy by simp
  from search_returns_only_matching_chunks[OF ex_loaded insertionSort_spec h3]
  have "\<exists>i<length (chunks exampleIndex). 1 \<le> Score ?c
       \<and> (\<exists>kw\<in>set (extractKeywords (ToLower ''policy'')). kw \<in> set (Keywords ?c))"
    by blast
  with ex_loaded insertionSort_spec ex_search_policy show ?thesis by blast
qed




text \<open>
  Claim C2, amended. For a fixed index, query and bound, two calls of
  \<open>SearchRelevantChunks\<close>, with whatever two orders of visiting \<open>chunkScores\<close>, return
  sequences of the same length with the same score at each place; when no two scored
  chunks have the same score the two sequences are identical.
\<close>

theorem search_scores_independent_of_visit_order:
  assumes "sortSliceSpec sortSlice scoreLess"
    and "rangeOrder (chunkScores ds (extractKeywords (ToLower query))) order1"
    and "rangeOrder (chunkScores ds (extractKeywords (ToLower query))) order2"
  shows "map Score (SearchRelevantChunks sortSlice order1 ds query maxChunks)
           = map Score (SearchRelevantChunks sortSlice order2 ds query maxChunks)
       \<and> ((\<forall>i j s. i < length (chunks ds) \<longrightarrow> j < length (chunks ds) \<longrightarrow>
               chunkScores ds (extractKeywords (ToLower query)) i = Some s \<longrightarrow>
               chunkScores ds (extractKeywords (ToLower query)) j = Some s \<longrightarrow> i = j)
            \<longrightarrow> SearchRelevantChunks sortSlice order1 ds query maxChunks
                  = SearchRelevantChunks sortSlice order2 ds query maxChunks)"
proof -
  have "SearchRelevantChunks sortSlice order1 ds query maxChunks
          = SearchRelevantChunks sortSlice order2 ds query maxChunks"
    if "\<forall>i j s. i < length (chunks ds) \<longrightarrow> j < length (chunks ds) \<longrightarrow>
               chunkScores ds (extractKeywords (ToLower query)) i = Some s \<longrightarrow>
               chunkScores ds (extractKeywords (ToLower query)) j = Some s \<longrightarrow> i = j"
    by (rule Search_eq_no_ties[OF assms]) (use that in blast)
  with Search_scores_eq[OF assms] show ?thesis by blast
qed

theorem search_scores_independent_of_visit_order_witness:
  "sortSliceSpec insertionSort scoreLess
   \<and> rangeOrder (chunkScores exampleIndex (extractKeywords (ToLower ''Refund policy''))) [0, 1]
   \<and> rangeOrder (chunkScores exampleIndex (extractKeywords (ToLower ''Refund policy''))) [1, 0]
   \<and> chunkScores exampleIndex (extractKeywords (ToLower ''Refund policy'')) = [0 \<mapsto> 2 + ln 2, 1 \<mapsto> 1]
   \<and> SearchRelevantChunks insertionSort [0, 1] exampleIndex ''Refund policy'' 5
       = SearchRelevantChunks insertionSort [1, 0] exampleIndex ''Refund policy'' 5"
proof -
  note t = search_scores_independent_of_visit_order[OF insertionSort_spec ex_rangeOrder(4)
      ex_rangeOrder(3), of 5]
  have m: "chunkScores exampleIndex (extractKeywords (ToLower ''Refund policy''))
             = [0 \<mapsto> 2 + ln 2, 1 \<mapsto> 1]"
    unfolding ex_query by (rule ex_scores_both)
  have "\<forall>i j s. i < length (chunks exampleIndex) \<longrightarrow> j < length (chunks exampleIndex) \<longrightarrow>
               chunkScores exampleIndex (extractKeywords (ToLower ''Refund policy'')) i = Some s \<longrightarrow>
               chunkScores exampleIndex (extractKeywords (ToLower ''Refund policy'')) j = Some s \<longrightarrow> i = j"
  proof -
    have ne: "1 + ln (2::real) \<noteq> 0" using ln2_pos by linarith
    show ?thesis unfolding m using ne by (auto split: if_splits)
  qed
  with t have "SearchRelevantChunks insertionSort [0, 1] exampleIndex ''Refund policy'' 5
       = SearchRelevantChunks insertionSort [1, 0] exampleIndex ''Refund policy'' 5" by blast
  with insertionSort_spec ex_rangeOrder(4) ex_rangeOrder(3) m show ?thesis by blast
qed

text \<open>
  Claim C2 as stated fails: on the example index and the query \<open>refund\<close> the two orders
  of visiting the two tied positions give two different result sequences.
\<close>

theorem search_depends_on_visit_order:
  "rangeOrder (chunkScores exampleIndex (extractKeywords (ToLower ''refund''))) [0, 1]
   \<and> rangeOrder (chunkScores exampleIndex (extractKeywords (ToLower ''refund''))) [1, 0]
   \<and> SearchRelevantChunks insertionSort [0, 1] exampleIndex ''refund'' 5 =
       [\<lparr>ID = ''a.md_chunk_0'', DocPath = ''a.md'', Title = ''Untitled'',
         Content = ''refund policy'' @ [CHR 0x0A], Keywords = [''refund'', ''policy''], Score = 1\<rparr>,
        \<lparr>ID = ''b.md_chunk_0'', DocPath = ''b.md'', Title = ''Untitled'',
         Content = ''refund'' @ [CHR 0x0A], Keywords = [''refund''], Score = 1\<rparr>]
   \<and> SearchRelevantChunks insertionSort [1, 0] exampleIndex ''refund'' 5 =
       [\<lparr>ID = ''b.md_chunk_0'', DocPath = ''b.md'', Title = ''Untitled'',
         Content = ''refund'' @ [CHR 0x0A], Keywords = [''refund''], Score = 1\<rparr>,
        \<lparr>ID = ''a.md_chunk_0'', DocPath = ''a.md'', Title = ''Untitled'',
         Content = ''refund policy'' @ [CHR 0x0A], Keywords = [''refund'', ''policy''], Score = 1\<rparr>]
   \<and> SearchRelevantChunks insertionSort [0, 1] exampleIndex ''refund'' 5
        \<noteq> SearchRelevantChunks insertionSort [1, 0] exampleIndex ''refund'' 5"
proof -
  have "SearchRelevantChunks insertionSort [0, 1] exampleIndex ''refund'' 5
        \<noteq> SearchRelevantChunks insertionSort [1, 0] exampleIndex ''refund'' 5"
    unfolding ex_search_refund_10 ex_search_refund_01 by simp
  with ex_rangeOrder(1,2) ex_search_refund_10 ex_search_refund_01 show ?thesis by blast
qed

end
